theory Spec2Isabelle
  imports Main "HOL-Library.Word"
begin

section \<open>Values of the program\<close>

text \<open>
  A Python \<open>bytes\<close> object is a list of 8-bit words, a Python \<open>str\<close> a list of code
  points. Exceptions are values of \<open>py_error\<close>; a function that can raise returns
  \<open>py_error + 'a\<close>, with \<open>Inl\<close> the exception.
\<close>

type_synonym byte = "8 word"
type_synonym bytes = "byte list"
type_synonym pystr = "nat list"

datatype py_error =
    StructError
  | UnicodeEncodeError
  | UnicodeDecodeError
  | TypeError
  | ValueError
  | SocketTimeout
  | ConnectionRefusedError
  | OSError

text \<open>The dynamically typed values that travel through \<open>create_packet\<close> and \<open>parse_packet\<close>.\<close>

datatype pyval = PNone | PInt nat | PStr pystr | PBytes bytes

definition INITIALIZATION :: nat where "INITIALIZATION = 1"
definition AGREE :: nat where "AGREE = 2"
definition REVERSE_REQUEST :: nat where "REVERSE_REQUEST = 3"
definition REVERSE_ANSWER :: nat where "REVERSE_ANSWER = 4"

section \<open>The struct module and the ASCII codec\<close>

text \<open>\<open>xs[i:j]\<close> for non-negative \<open>i\<close>, \<open>j\<close>: out-of-range bounds are clipped.\<close>

definition slice :: "'a list \<Rightarrow> nat \<Rightarrow> nat \<Rightarrow> 'a list" where
  "slice xs i j = take (j - i) (drop i xs)"

text \<open>\<open>struct.pack('!H', t)\<close> and \<open>struct.pack('!HI', t, n)\<close>: big-endian, range-checked.\<close>

definition u16_be :: "nat \<Rightarrow> bytes" where
  "u16_be t = [of_nat (t div 256), of_nat (t mod 256)]"

definition u32_be :: "nat \<Rightarrow> bytes" where
  "u32_be n = [of_nat (n div 16777216), of_nat (n div 65536 mod 256),
               of_nat (n div 256 mod 256), of_nat (n mod 256)]"

definition pack_H :: "nat \<Rightarrow> py_error + bytes" where
  "pack_H t = (if t < 65536 then Inr (u16_be t) else Inl StructError)"

definition pack_HI :: "nat \<Rightarrow> nat \<Rightarrow> py_error + bytes" where
  "pack_HI t n = (if t < 65536 \<and> n < 4294967296 then Inr (u16_be t @ u32_be n)
                  else Inl StructError)"

text \<open>\<open>struct.unpack('!H', b)[0]\<close> and \<open>struct.unpack('!I', b)[0]\<close>: the buffer must have
  exactly the size of the format.\<close>

fun unpack_H :: "bytes \<Rightarrow> py_error + nat" where
  "unpack_H [a, b] = Inr (256 * unat a + unat b)"
| "unpack_H _ = Inl StructError"

fun unpack_I :: "bytes \<Rightarrow> py_error + nat" where
  "unpack_I [a, b, c, d] =
     Inr (16777216 * unat a + 65536 * unat b + 256 * unat c + unat d)"
| "unpack_I _ = Inl StructError"

text \<open>\<open>s.encode('ascii')\<close> and \<open>b.decode('ascii')\<close>.\<close>

definition encode_ascii :: "pystr \<Rightarrow> py_error + bytes" where
  "encode_ascii s = (if list_all (\<lambda>c. c < 128) s then Inr (map of_nat s)
                     else Inl UnicodeEncodeError)"

definition decode_ascii :: "bytes \<Rightarrow> py_error + pystr" where
  "decode_ascii b = (if list_all (\<lambda>x. unat x < 128) b then Inr (map unat b)
                     else Inl UnicodeDecodeError)"

section \<open>The framing codec\<close>

subsection \<open>Client side: reversetcpclient.py\<close>

definition client_create_packet :: "nat \<Rightarrow> pyval \<Rightarrow> py_error + bytes option" where
  "client_create_packet packet_type data =
     (if packet_type = INITIALIZATION then
        (case data of
           PInt n \<Rightarrow> (case pack_HI INITIALIZATION n of
                        Inl e \<Rightarrow> Inl e | Inr b \<Rightarrow> Inr (Some b))
         | _ \<Rightarrow> Inl StructError)
      else if packet_type = REVERSE_REQUEST then
        (case data of
           PBytes d \<Rightarrow> (case pack_HI REVERSE_REQUEST (length d) of
                          Inl e \<Rightarrow> Inl e | Inr b \<Rightarrow> Inr (Some (b @ d)))
         | PStr t \<Rightarrow> (case pack_HI REVERSE_REQUEST (length t) of
                        Inl e \<Rightarrow> Inl e | Inr b \<Rightarrow> Inl TypeError)
         | _ \<Rightarrow> Inl TypeError)
      else Inr None)"

definition client_parse_packet :: "bytes \<Rightarrow> py_error + (nat option \<times> pyval)" where
  "client_parse_packet data =
     (if length data < 2 then Inr (None, PNone)
      else
        (case unpack_H (slice data 0 2) of
           Inl e \<Rightarrow> Inl e
         | Inr packet_type \<Rightarrow>
             if packet_type = AGREE then Inr (Some packet_type, PNone)
             else if packet_type = REVERSE_ANSWER \<and> length data \<ge> 6 then
               (case unpack_I (slice data 2 6) of
                  Inl e \<Rightarrow> Inl e
                | Inr len \<Rightarrow>
                    if length data \<ge> 6 + len then
                      (case decode_ascii (slice data 6 (6 + len)) of
                         Inl e \<Rightarrow> Inl e
                       | Inr reversed_text \<Rightarrow> Inr (Some packet_type, PStr reversed_text))
                    else Inr (None, PNone))
             else Inr (None, PNone)))"

subsection \<open>Server side: reversetcpserver.py\<close>

definition server_create_packet :: "nat \<Rightarrow> pyval \<Rightarrow> py_error + bytes option" where
  "server_create_packet packet_type data =
     (if packet_type = AGREE then
        (case pack_H AGREE of Inl e \<Rightarrow> Inl e | Inr b \<Rightarrow> Inr (Some b))
      else if packet_type = REVERSE_ANSWER then
        (case data of
           PBytes d \<Rightarrow> (case pack_HI REVERSE_ANSWER (length d) of
                          Inl e \<Rightarrow> Inl e | Inr b \<Rightarrow> Inr (Some (b @ d)))
         | PStr t \<Rightarrow> (case pack_HI REVERSE_ANSWER (length t) of
                        Inl e \<Rightarrow> Inl e | Inr b \<Rightarrow> Inl TypeError)
         | _ \<Rightarrow> Inl TypeError)
      else Inr None)"

definition server_parse_packet :: "bytes \<Rightarrow> py_error + (nat option \<times> pyval)" where
  "server_parse_packet data =
     (if length data < 2 then Inr (None, PNone)
      else
        (case unpack_H (slice data 0 2) of
           Inl e \<Rightarrow> Inl e
         | Inr packet_type \<Rightarrow>
             if packet_type = INITIALIZATION \<and> length data \<ge> 6 then
               (case unpack_I (slice data 2 6) of
                  Inl e \<Rightarrow> Inl e
                | Inr n_blocks \<Rightarrow> Inr (Some packet_type, PInt n_blocks))
             else if packet_type = REVERSE_REQUEST \<and> length data \<ge> 6 then
               (case unpack_I (slice data 2 6) of
                  Inl e \<Rightarrow> Inl e
                | Inr len \<Rightarrow>
                    if length data \<ge> 6 + len then
                      (case decode_ascii (slice data 6 (6 + len)) of
                         Inl e \<Rightarrow> Inl e
                       | Inr text \<Rightarrow> Inr (Some packet_type, PStr text))
                    else Inr (None, PNone))
             else Inr (None, PNone)))"

section \<open>Sockets\<close>

text \<open>
  The peer and the network are an environment with a state of its own: every socket call
  takes the environment's state and returns the next one, or raises. \<open>recv sock s n\<close> is
  \<open>conn.recv(n)\<close>; the empty result is the closed connection. \<open>running\<close> is the value a
  worker reads from the global \<open>server_running\<close>, which the signal handler changes from
  outside; every read of it in \<open>handle_client\<close> directly follows a socket call, so it
  is a function of the environment's state.
\<close>

record 's socket =
  connect :: "'s \<Rightarrow> py_error + 's"
  sendall :: "'s \<Rightarrow> bytes \<Rightarrow> py_error + 's"
  send :: "'s \<Rightarrow> bytes \<Rightarrow> py_error + 's"
  recv :: "'s \<Rightarrow> nat \<Rightarrow> py_error + (bytes \<times> 's)"
  running :: "'s \<Rightarrow> bool"

section \<open>The server worker: handle_client\<close>

text \<open>The ways out of the \<open>try\<close> block of \<open>handle_client\<close>, one for each \<open>return\<close>,
  \<open>break\<close>, caught exception, and the exhausted \<open>for\<close> loop.\<close>

datatype exit_path =
    InitIncomplete
  | InitInvalid
  | ShuttingDown
  | HeaderIncomplete
  | DataIncomplete
  | RequestInvalid
  | Raised py_error
  | Completed

text \<open>The inner \<open>while len(text_data) < length\<close> loop of the server (lines 95-105).\<close>

function recv_text :: "'s socket \<Rightarrow> nat \<Rightarrow> bytes \<Rightarrow> 's \<Rightarrow> py_error + (bytes \<times> 's)" where
  "recv_text sock len text_data s =
     (if length text_data < len then
        (if \<not> running sock s then Inr (text_data, s)
         else
           (case recv sock s (len - length text_data) of
              Inl e \<Rightarrow> Inl e
            | Inr r \<Rightarrow>
                if fst r = [] then Inr (text_data, snd r)
                else recv_text sock len (text_data @ fst r) (snd r)))
      else Inr (text_data, s))"
  by pat_completeness auto
termination
  by (relation "measure (\<lambda>(sock, len, text_data, s). len - length text_data)")
    (auto simp: neq_Nil_conv)

text \<open>One pass through the body of \<open>for block_index in range(n_blocks)\<close> (lines 80-122):
  the packets passed to \<open>conn.send\<close>, and either the way out or the next state.\<close>

definition serve_block :: "'s socket \<Rightarrow> 's \<Rightarrow> bytes list \<times> (exit_path + 's)" where
  "serve_block sock s =
     (if \<not> running sock s then ([], Inl ShuttingDown)
      else
        (case recv sock s 6 of
           Inl e \<Rightarrow> ([], Inl (Raised e))
         | Inr (header, s1) \<Rightarrow>
             if length header < 6 then ([], Inl HeaderIncomplete)
             else
               (case unpack_I (slice header 2 6) of
                  Inl e \<Rightarrow> ([], Inl (Raised e))
                | Inr len \<Rightarrow>
                    (case recv_text sock len [] s1 of
                       Inl e \<Rightarrow> ([], Inl (Raised e))
                     | Inr (text_data, s2) \<Rightarrow>
                         if length text_data < len then ([], Inl DataIncomplete)
                         else
                           (case server_parse_packet (header @ text_data) of
                              Inl e \<Rightarrow> ([], Inl (Raised e))
                            | Inr (packet_type, text) \<Rightarrow>
                                if packet_type \<noteq> Some REVERSE_REQUEST
                                then ([], Inl RequestInvalid)
                                else
                                  (case text of
                                     PStr t \<Rightarrow>
                                       (case encode_ascii (rev t) of
                                          Inl e \<Rightarrow> ([], Inl (Raised e))
                                        | Inr reversed_text \<Rightarrow>
                                            (case server_create_packet REVERSE_ANSWER
                                                    (PBytes reversed_text) of
                                               Inl e \<Rightarrow> ([], Inl (Raised e))
                                             | Inr None \<Rightarrow> ([], Inl (Raised TypeError))
                                             | Inr (Some p) \<Rightarrow>
                                                 (case send sock s2 p of
                                                    Inl e \<Rightarrow> ([p], Inl (Raised e))
                                                  | Inr s3 \<Rightarrow> ([p], Inr s3))))
                                   | _ \<Rightarrow> ([], Inl (Raised TypeError))))))))"

text \<open>The \<open>for\<close> loop: the packets sent, the index reached, and the way out.\<close>

function serve_blocks ::
  "'s socket \<Rightarrow> nat \<Rightarrow> nat \<Rightarrow> bytes list \<Rightarrow> 's \<Rightarrow> bytes list \<times> nat \<times> exit_path" where
  "serve_blocks sock n_blocks block_index sent s =
     (if block_index < n_blocks then
        (case serve_block sock s of
           (out, Inl x) \<Rightarrow> (sent @ out, block_index, x)
         | (out, Inr s') \<Rightarrow> serve_blocks sock n_blocks (Suc block_index) (sent @ out) s')
      else (sent, block_index, Completed))"
  by pat_completeness auto
termination
  by (relation "measure (\<lambda>(sock, n_blocks, block_index, sent, s). n_blocks - block_index)") auto

text \<open>The \<open>try\<close> block of \<open>handle_client\<close> (lines 61-122).\<close>

definition handle_client_try :: "'s socket \<Rightarrow> 's \<Rightarrow> bytes list \<times> nat \<times> exit_path" where
  "handle_client_try sock s =
     (case recv sock s 6 of
        Inl e \<Rightarrow> ([], 0, Raised e)
      | Inr (data, s1) \<Rightarrow>
          if data = [] \<or> length data < 6 then ([], 0, InitIncomplete)
          else
            (case server_parse_packet data of
               Inl e \<Rightarrow> ([], 0, Raised e)
             | Inr (packet_type, n_blocks) \<Rightarrow>
                 if packet_type \<noteq> Some INITIALIZATION then ([], 0, InitInvalid)
                 else
                   (case server_create_packet AGREE PNone of
                      Inl e \<Rightarrow> ([], 0, Raised e)
                    | Inr None \<Rightarrow> ([], 0, Raised TypeError)
                    | Inr (Some p) \<Rightarrow>
                        (case send sock s1 p of
                           Inl e \<Rightarrow> ([p], 0, Raised e)
                         | Inr s2 \<Rightarrow>
                             (case n_blocks of
                                PInt n \<Rightarrow> serve_blocks sock n 0 [p] s2
                              | _ \<Rightarrow> ([p], 0, Raised TypeError))))))"

text \<open>
  The global registries of the server, and what a worker leaves behind. \<open>handle_client\<close>
  appends its connection on entry; the \<open>finally\<close> block (lines 125-135) removes the
  connection if it is listed, closes the socket, and removes the current thread if it is
  listed. \<open>list.remove\<close> deletes the first occurrence.
\<close>

record ('c, 't) registries =
  client_threads :: "'t list"
  client_connections :: "'c list"

record ('c, 't) worker_result =
  sent :: "bytes list"
  processed :: nat
  exit_by :: exit_path
  closed :: bool
  globals :: "('c, 't) registries"

definition handle_client ::
  "'s socket \<Rightarrow> 's \<Rightarrow> 'c \<Rightarrow> 't \<Rightarrow> ('c, 't) registries \<Rightarrow> ('c, 't) worker_result" where
  "handle_client sock s conn thread g =
     (let g1 = g\<lparr>client_connections := client_connections g @ [conn]\<rparr>;
          (out, index, x) = handle_client_try sock s;
          g2 = (if conn \<in> set (client_connections g1)
                then g1\<lparr>client_connections := remove1 conn (client_connections g1)\<rparr>
                else g1);
          g3 = (if thread \<in> set (client_threads g2)
                then g2\<lparr>client_threads := remove1 thread (client_threads g2)\<rparr>
                else g2)
      in \<lparr>sent = out, processed = index, exit_by = x, closed = True, globals = g3\<rparr>)"

text \<open>The dispatcher's bookkeeping after \<open>client_thread.start()\<close> (line 196).\<close>

definition register_thread :: "'t \<Rightarrow> ('c, 't) registries \<Rightarrow> ('c, 't) registries" where
  "register_thread thread g = g\<lparr>client_threads := client_threads g @ [thread]\<rparr>"

text \<open>
  One pass of the accept loop of \<open>start_server\<close> (lines 192-196) together with the worker
  it starts. The worker runs in its own thread, beside the dispatcher: \<open>worker_first\<close>
  says that the worker has reached the end of its \<open>finally\<close> block before the dispatcher
  runs line 196; otherwise line 196 runs before the worker looks for its thread.
\<close>

definition accept_and_handle ::
  "bool \<Rightarrow> 's socket \<Rightarrow> 's \<Rightarrow> 'c \<Rightarrow> 't \<Rightarrow> ('c, 't) registries \<Rightarrow> ('c, 't) registries" where
  "accept_and_handle worker_first sock s conn thread g =
     (if worker_first
      then register_thread thread (globals (handle_client sock s conn thread g))
      else globals (handle_client sock s conn thread (register_thread thread g)))"

section \<open>The client: main\<close>

subsection \<open>Splitting the text\<close>

text \<open>
  \<open>random.randint(a, b)\<close> returns some integer of \<open>[a, b]\<close> and raises on an empty range.
  The generator is a sequence \<open>rnd\<close> of raw draws, the \<open>k\<close>-th call reducing the \<open>k\<close>-th
  draw into the range: every value of the range is the result for some draw.
\<close>

definition randint :: "int \<Rightarrow> int \<Rightarrow> nat \<Rightarrow> py_error + int" where
  "randint a b r = (if a \<le> b then Inr (a + int (r mod nat (b - a + 1)))
                    else Inl ValueError)"

text \<open>\<open>xs[i:j]\<close> for arbitrary integers: a negative bound counts from the end.\<close>

definition clip_index :: "nat \<Rightarrow> int \<Rightarrow> nat" where
  "clip_index n i = (if i < 0 then nat (max 0 (int n + i)) else min n (nat i))"

definition py_slice :: "'a list \<Rightarrow> int \<Rightarrow> int \<Rightarrow> 'a list" where
  "py_slice xs i j = slice xs (clip_index (length xs) i) (clip_index (length xs) j)"

text \<open>The loop \<open>while start_index < total_length\<close> (lines 105-110). It need not end (it
  does not for \<open>Lmin = Lmax = 0\<close>), so its result is an option.\<close>

partial_function (option) split_loop ::
  "'a list \<Rightarrow> int \<Rightarrow> int \<Rightarrow> (nat \<Rightarrow> nat) \<Rightarrow> nat \<Rightarrow> int \<Rightarrow> 'a list list
     \<Rightarrow> (py_error + 'a list list) option" where
  "split_loop content lmin lmax rnd k start_index blocks =
     (if start_index < int (length content) then
        (case randint lmin lmax (rnd k) of
           Inl e \<Rightarrow> Some (Inl e)
         | Inr block_size \<Rightarrow>
             split_loop content lmin lmax rnd (Suc k)
               (min (start_index + block_size) (int (length content)))
               (blocks @ [py_slice content start_index
                            (min (start_index + block_size) (int (length content)))]))
      else Some (Inr blocks))"

subsection \<open>The exchange with the server\<close>

text \<open>The loop \<open>while len(reversed_data) < length\<close> of the client (lines 203-207).\<close>

function recv_data :: "'s socket \<Rightarrow> nat \<Rightarrow> bytes \<Rightarrow> 's \<Rightarrow> py_error + (bytes \<times> 's)" where
  "recv_data sock len reversed_data s =
     (if length reversed_data < len then
        (case recv sock s (len - length reversed_data) of
           Inl e \<Rightarrow> Inl e
         | Inr r \<Rightarrow>
             if fst r = [] then Inr (reversed_data, snd r)
             else recv_data sock len (reversed_data @ fst r) (snd r))
      else Inr (reversed_data, s))"
  by pat_completeness auto
termination
  by (relation "measure (\<lambda>(sock, len, reversed_data, s). len - length reversed_data)")
    (auto simp: neq_Nil_conv)

text \<open>One pass through the body of \<open>for i, block in enumerate(blocks)\<close> (lines 167-230):
  the packets passed to \<open>sendall\<close>, and the reversed text with the next state, or
  \<open>None\<close> for a \<open>break\<close>.\<close>

definition exchange_block ::
  "'s socket \<Rightarrow> 's \<Rightarrow> pystr \<Rightarrow> bytes list \<times> (pystr \<times> 's) option" where
  "exchange_block sock s block =
     (case encode_ascii block of
        Inl e \<Rightarrow> ([], None)
      | Inr b \<Rightarrow>
          (case client_create_packet REVERSE_REQUEST (PBytes b) of
             Inl e \<Rightarrow> ([], None)
           | Inr None \<Rightarrow> ([], None)
           | Inr (Some request_data) \<Rightarrow>
               (case sendall sock s request_data of
                  Inl e \<Rightarrow> ([request_data], None)
                | Inr s1 \<Rightarrow>
                    (case recv sock s1 6 of
                       Inl e \<Rightarrow> ([request_data], None)
                     | Inr (header, s2) \<Rightarrow>
                         if length header < 6 then ([request_data], None)
                         else
                           (case unpack_I (slice header 2 6) of
                              Inl e \<Rightarrow> ([request_data], None)
                            | Inr len \<Rightarrow>
                                (case recv_data sock len [] s2 of
                                   Inl e \<Rightarrow> ([request_data], None)
                                 | Inr (reversed_data, s3) \<Rightarrow>
                                     if length reversed_data < len
                                     then ([request_data], None)
                                     else
                                       (case client_parse_packet (header @ reversed_data) of
                                          Inl e \<Rightarrow> ([request_data], None)
                                        | Inr (packet_type, reversed_text) \<Rightarrow>
                                            if packet_type \<noteq> Some REVERSE_ANSWER
                                            then ([request_data], None)
                                            else
                                              (case reversed_text of
                                                 PStr t \<Rightarrow>
                                                   ([request_data], Some (t, s3))
                                               | _ \<Rightarrow> ([request_data], None)))))))))"

text \<open>The \<open>for\<close> loop over the blocks, writing each result at its index.\<close>

fun exchange_blocks ::
  "'s socket \<Rightarrow> pystr list \<Rightarrow> nat \<Rightarrow> pystr option list \<Rightarrow> bytes list \<Rightarrow> 's
     \<Rightarrow> bytes list \<times> pystr option list" where
  "exchange_blocks sock [] i reversed_blocks out s = (out, reversed_blocks)"
| "exchange_blocks sock (block # rest) i reversed_blocks out s =
     (case exchange_block sock s block of
        (req, None) \<Rightarrow> (out @ req, reversed_blocks)
      | (req, Some (t, s')) \<Rightarrow>
          exchange_blocks sock rest (Suc i) (reversed_blocks[i := Some t]) (out @ req) s')"

text \<open>
  The exchanges for a list of blocks told one by one, each on the state the one before
  has left: the texts received and the last state, or \<open>None\<close> as soon as one exchange
  fails.
\<close>

fun exchanges :: "'s socket \<Rightarrow> 's \<Rightarrow> pystr list \<Rightarrow> (pystr list \<times> 's) option" where
  "exchanges sock s [] = Some ([], s)"
| "exchanges sock s (block # rest) =
     (case snd (exchange_block sock s block) of
        None \<Rightarrow> None
      | Some (t, s1) \<Rightarrow>
          (case exchanges sock s1 rest of
             None \<Rightarrow> None
           | Some (ts, s') \<Rightarrow> Some (t # ts, s')))"

text \<open>How a run of the client ends: one value for each \<open>exit(1)\<close>, each \<open>return\<close>, the two
  branches of step 8, and the outer exception handlers.\<close>

datatype client_exit =
    BadPort
  | BadBlockSize
  | FileMissing
  | NotPrintable
  | ConnectFailed
  | InitFailed
  | AgreeFailed
  | OutputWritten
  | OutputSkipped
  | ClientError py_error

record client_result =
  transmitted :: "bytes list"
  reversed_blocks :: "pystr option list"
  output_file :: "pystr option"
  ended :: client_exit

definition stopped :: "bytes list \<Rightarrow> pystr option list \<Rightarrow> client_exit \<Rightarrow> client_result" where
  "stopped out rb x = \<lparr>transmitted = out, reversed_blocks = rb, output_file = None, ended = x\<rparr>"

text \<open>Steps 4 to 6 of \<open>main\<close> (lines 116-163): connect, send the initialization packet,
  wait for the agreement. The result is the packets passed to \<open>sendall\<close>, and the state
  after the agreement, or which \<open>return\<close> ended the run.\<close>

definition handshake :: "'s socket \<Rightarrow> 's \<Rightarrow> nat \<Rightarrow> bytes list \<times> (client_exit + 's)" where
  "handshake sock s n_blocks =
     (case connect sock s of
        Inl e \<Rightarrow> ([], Inl ConnectFailed)
      | Inr s1 \<Rightarrow>
          (case client_create_packet INITIALIZATION (PInt n_blocks) of
             Inl e \<Rightarrow> ([], Inl InitFailed)
           | Inr None \<Rightarrow> ([], Inl InitFailed)
           | Inr (Some init_packet) \<Rightarrow>
               (case sendall sock s1 init_packet of
                  Inl e \<Rightarrow> ([init_packet], Inl InitFailed)
                | Inr s2 \<Rightarrow>
                    (case recv sock s2 2 of
                       Inl e \<Rightarrow> ([init_packet], Inl AgreeFailed)
                     | Inr (data, s3) \<Rightarrow>
                         if length data < 2 then ([init_packet], Inl AgreeFailed)
                         else
                           (case client_parse_packet data of
                              Inl e \<Rightarrow> ([init_packet], Inl AgreeFailed)
                            | Inr (packet_type, v) \<Rightarrow>
                                if packet_type \<noteq> Some AGREE
                                then ([init_packet], Inl AgreeFailed)
                                else ([init_packet], Inr s3))))))"

text \<open>Steps 4 to 8 of \<open>main\<close> (lines 116-240), from the blocks on: the handshake, the
  loop over the blocks, and the output file, written only if every entry of
  \<open>reversed_blocks\<close> is set.\<close>

definition client_session :: "'s socket \<Rightarrow> 's \<Rightarrow> pystr list \<Rightarrow> client_result" where
  "client_session sock s blocks =
     (let n_blocks = length blocks;
          rb0 = replicate n_blocks None
      in case handshake sock s n_blocks of
           (out, Inl x) \<Rightarrow> stopped out rb0 x
         | (out, Inr s3) \<Rightarrow>
             (case exchange_blocks sock blocks 0 rb0 out s3 of
                (out', rb) \<Rightarrow>
                  if list_all (\<lambda>block. block \<noteq> None) rb
                  then \<lparr>transmitted = out', reversed_blocks = rb,
                         output_file = Some (concat (map the rb)),
                         ended = OutputWritten\<rparr>
                  else stopped out' rb OutputSkipped))"

record args =
  server_port :: int
  Lmin :: int
  Lmax :: int

text \<open>\<open>main\<close>: \<open>input_file\<close> is the content of the file, \<open>None\<close> when it does not exist.
  The result is \<open>None\<close> when the splitting loop does not end.\<close>

definition main ::
  "args \<Rightarrow> pystr option \<Rightarrow> (nat \<Rightarrow> nat) \<Rightarrow> 's socket \<Rightarrow> 's \<Rightarrow> client_result option" where
  "main a input_file rnd sock s =
     (if server_port a < 1024 \<or> server_port a > 65535 then Some (stopped [] [] BadPort)
      else if Lmin a \<le> 0 \<or> Lmax a \<le> 0 \<or> Lmin a > Lmax a
      then Some (stopped [] [] BadBlockSize)
      else
        (case input_file of
           None \<Rightarrow> Some (stopped [] [] FileMissing)
         | Some content \<Rightarrow>
             if \<not> list_all (\<lambda>c. 32 \<le> c \<and> c \<le> 126) content
             then Some (stopped [] [] NotPrintable)
             else
               (case split_loop content (Lmin a) (Lmax a) rnd 0 0 [] of
                  None \<Rightarrow> None
                | Some (Inl e) \<Rightarrow> Some (stopped [] [] (ClientError e))
                | Some (Inr blocks) \<Rightarrow> Some (client_session sock s blocks))))"

section \<open>A client and a worker on one connection\<close>

text \<open>
  The worker's view of a connection on which the bytes \<open>inp\<close> have arrived and the peer
  sends no more: \<open>recv\<close> hands out what was asked for, or what is left; \<open>send\<close> succeeds;
  the server is not shutting down.
\<close>

definition stream_socket :: "bytes socket" where
  "stream_socket =
     \<lparr>connect = (\<lambda>s. Inr s),
      sendall = (\<lambda>s d. Inr s),
      send = (\<lambda>s d. Inr s),
      recv = (\<lambda>s n. Inr (take n s, drop n s)),
      running = (\<lambda>s. True)\<rparr>"

definition starved :: "exit_path \<Rightarrow> bool" where
  "starved x = (x = InitIncomplete \<or> x = HeaderIncomplete \<or> x = DataIncomplete)"

text \<open>
  The client's view of a connection to that worker. The state is what the client has
  sent and how many bytes of the worker's output it has read. The worker's output is what
  \<open>handle_client\<close> sends when it has received what the client has sent. Where nothing is
  left to read, the client times out if the worker waits for more input, and reads the
  end of the stream if the worker has closed the connection.
\<close>

definition server_peer :: "(bytes \<times> nat) socket" where
  "server_peer =
     \<lparr>connect = (\<lambda>s. Inr s),
      sendall = (\<lambda>s d. Inr (fst s @ d, snd s)),
      send = (\<lambda>s d. Inr (fst s @ d, snd s)),
      recv = (\<lambda>s n.
        (case handle_client_try stream_socket (fst s) of
           (out, index, x) \<Rightarrow>
             if drop (snd s) (concat out) = [] then
               (if starved x then Inl SocketTimeout else Inr ([], s))
             else Inr (take n (drop (snd s) (concat out)),
                       (fst s, snd s + length (take n (drop (snd s) (concat out))))))),
      running = (\<lambda>s. True)\<rparr>"



section \<open>The packets on the wire\<close>

text \<open>The four packets as byte sequences: the type in two bytes, then for all but the
  agreement a 32-bit count or length, then the payload.\<close>

definition init_packet :: "nat \<Rightarrow> bytes" where
  "init_packet n = u16_be INITIALIZATION @ u32_be n"

definition agree_packet :: bytes where
  "agree_packet = u16_be AGREE"

definition request_packet :: "bytes \<Rightarrow> bytes" where
  "request_packet d = u16_be REVERSE_REQUEST @ u32_be (length d) @ d"

definition answer_packet :: "bytes \<Rightarrow> bytes" where
  "answer_packet d = u16_be REVERSE_ANSWER @ u32_be (length d) @ d"

text \<open>
  A session in which complete requests arrive: from the state \<open>s\<close> on, for each payload
  of \<open>ds\<close> in turn, the server is not shutting down, \<open>recv(6)\<close> returns the header of
  the request, the receive loop collects the payload (in one piece or in several),
  and \<open>send\<close> accepts the answer; \<open>s'\<close> is the state after the last answer.
\<close>

fun requests_arrive :: "'s socket \<Rightarrow> 's \<Rightarrow> bytes list \<Rightarrow> 's \<Rightarrow> bool" where
  "requests_arrive sock s [] s' = (s' = s)"
| "requests_arrive sock s (d # ds) s' =
     (running sock s \<and>
      (case recv sock s 6 of
         Inl e \<Rightarrow> False
       | Inr (header, s1) \<Rightarrow>
           header = u16_be REVERSE_REQUEST @ u32_be (length d) \<and>
           (case recv_text sock (length d) [] s1 of
              Inl e \<Rightarrow> False
            | Inr (text_data, s2) \<Rightarrow>
                text_data = d \<and>
                (case send sock s2 (answer_packet (rev d)) of
                   Inl e \<Rightarrow> False
                 | Inr s3 \<Rightarrow> requests_arrive sock s3 ds s'))))"



section \<open>Properties of the struct module and the ASCII codec\<close>

lemma be32_lin:
  "n = 256 * a + r0 \<Longrightarrow> a = 256 * b + r1 \<Longrightarrow> b = 256 * c + r2 \<Longrightarrow>
   16777216 * c + 65536 * r2 + 256 * r1 + r0 = (n::nat)"
  by simp

lemma be32_digits:
  "16777216 * (n div 16777216) + 65536 * (n div 65536 mod 256) +
     256 * (n div 256 mod 256) + n mod 256 = (n::nat)"
proof -
  have b: "n div 65536 = n div 256 div 256"
    by (simp add: div_mult2_eq)
  have c: "n div 16777216 = n div 256 div 256 div 256"
    by (simp add: div_mult2_eq)
  show ?thesis
    unfolding b c
    by (rule be32_lin [of n "n div 256" "n mod 256" "n div 256 div 256" "n div 256 mod 256"])
      simp_all
qed

lemma unat_byte: "n < 256 \<Longrightarrow> unat (of_nat n :: byte) = n"
  by (simp add: unat_of_nat)

lemma length_u16_be [simp]: "length (u16_be t) = 2"
  by (simp add: u16_be_def)

lemma length_u32_be [simp]: "length (u32_be n) = 4"
  by (simp add: u32_be_def)

lemma unpack_H_u16_be: "t < 65536 \<Longrightarrow> unpack_H (u16_be t) = Inr t"
  by (simp add: u16_be_def unat_byte del: of_nat_numeral)

lemma unpack_I_u32_be: "n < 4294967296 \<Longrightarrow> unpack_I (u32_be n) = Inr n"
  by (simp add: u32_be_def unat_byte be32_digits del: of_nat_numeral)

lemma decode_encode_ascii:
  "list_all (\<lambda>c. c < 128) s \<Longrightarrow> decode_ascii (map of_nat s) = Inr s"
proof -
  assume a: "list_all (\<lambda>c. c < 128) s"
  have "unat (of_nat c :: byte) = c" if "c \<in> set s" for c
    using a that by (intro unat_byte) (auto simp: list_all_iff)
  then have "map unat (map of_nat s :: bytes) = s"
    by (simp add: map_idI)
  moreover have "list_all (\<lambda>x. unat x < 128) (map of_nat s :: bytes)"
    using a \<open>\<And>c. c \<in> set s \<Longrightarrow> unat (of_nat c :: byte) = c\<close>
    by (auto simp: list_all_iff)
  ultimately show ?thesis
    by (simp add: decode_ascii_def)
qed

lemma encode_decode_ascii:
  "list_all (\<lambda>x. unat x < 128) b \<Longrightarrow> encode_ascii (map unat b) = Inr b"
  by (simp add: encode_ascii_def list_all_iff map_idI)

section \<open>Slices of a framed packet\<close>

lemma slice_type: "length h = 2 \<Longrightarrow> slice (h @ r) 0 2 = h"
  by (simp add: slice_def)

lemma slice_len: "length h = 2 \<Longrightarrow> length l = 4 \<Longrightarrow> slice (h @ l @ d) 2 6 = l"
  by (simp add: slice_def)

lemma slice_payload:
  "length h = 2 \<Longrightarrow> length l = 4 \<Longrightarrow> slice (h @ l @ d) 6 (6 + length d) = d"
  by (simp add: slice_def)

section \<open>Packets\<close>

lemmas packet_types = INITIALIZATION_def AGREE_def REVERSE_REQUEST_def REVERSE_ANSWER_def

lemma client_create_init:
  "n < 4294967296 \<Longrightarrow>
   client_create_packet INITIALIZATION (PInt n) = Inr (Some (u16_be INITIALIZATION @ u32_be n))"
  by (simp add: client_create_packet_def pack_HI_def packet_types)

lemma client_create_request:
  "length d < 4294967296 \<Longrightarrow>
   client_create_packet REVERSE_REQUEST (PBytes d) =
     Inr (Some (u16_be REVERSE_REQUEST @ u32_be (length d) @ d))"
  by (simp add: client_create_packet_def pack_HI_def packet_types)

lemma server_create_agree:
  "server_create_packet AGREE v = Inr (Some (u16_be AGREE))"
  by (simp add: server_create_packet_def pack_H_def packet_types)

lemma server_create_answer:
  "length d < 4294967296 \<Longrightarrow>
   server_create_packet REVERSE_ANSWER (PBytes d) =
     Inr (Some (u16_be REVERSE_ANSWER @ u32_be (length d) @ d))"
  by (simp add: server_create_packet_def pack_HI_def packet_types)

lemma server_parse_init:
  "n < 4294967296 \<Longrightarrow>
   server_parse_packet (u16_be INITIALIZATION @ u32_be n) = Inr (Some INITIALIZATION, PInt n)"
  by (simp add: server_parse_packet_def slice_type slice_len [where d = "[]", simplified]
      unpack_H_u16_be unpack_I_u32_be packet_types)

lemma server_parse_request:
  "length d < 4294967296 \<Longrightarrow>
   server_parse_packet (u16_be REVERSE_REQUEST @ u32_be (length d) @ d) =
     (case decode_ascii d of Inl e \<Rightarrow> Inl e | Inr t \<Rightarrow> Inr (Some REVERSE_REQUEST, PStr t))"
  by (simp add: server_parse_packet_def slice_type slice_len slice_payload
      unpack_H_u16_be unpack_I_u32_be packet_types split: sum.split)

lemma client_parse_agree:
  "client_parse_packet (u16_be AGREE) = Inr (Some AGREE, PNone)"
  by (simp add: client_parse_packet_def slice_type [where r = "[]", simplified]
      unpack_H_u16_be packet_types)

lemma client_parse_answer:
  "length d < 4294967296 \<Longrightarrow>
   client_parse_packet (u16_be REVERSE_ANSWER @ u32_be (length d) @ d) =
     (case decode_ascii d of Inl e \<Rightarrow> Inl e | Inr t \<Rightarrow> Inr (Some REVERSE_ANSWER, PStr t))"
  by (simp add: client_parse_packet_def slice_type slice_len slice_payload
      unpack_H_u16_be unpack_I_u32_be packet_types split: sum.split)

section \<open>Prefixes of a packet\<close>

lemma parse_short:
  "length p < 2 \<Longrightarrow> server_parse_packet p = Inr (None, PNone)"
  "length p < 2 \<Longrightarrow> client_parse_packet p = Inr (None, PNone)"
  by (simp_all add: server_parse_packet_def client_parse_packet_def)

lemma slice_take_type:
  "length h = 2 \<Longrightarrow> 2 \<le> k \<Longrightarrow> slice (take k (h @ r)) 0 2 = h"
  by (simp add: slice_def)

lemma slice_take_len:
  "length h = 2 \<Longrightarrow> length l = 4 \<Longrightarrow> 6 \<le> k \<Longrightarrow> slice (take k (h @ l @ d)) 2 6 = l"
  by (simp add: slice_def)

lemma server_parse_lt6:
  "length p < 6 \<Longrightarrow> length (slice p 0 2) = 2 \<or> length p < 2 \<Longrightarrow>
   server_parse_packet p = Inr (None, PNone)"
  by (cases "slice p 0 2" rule: unpack_H.cases)
    (auto simp: server_parse_packet_def)

lemma client_parse_lt6:
  "length p < 6 \<Longrightarrow> unpack_H (slice p 0 2) = Inr t \<Longrightarrow> t \<noteq> AGREE \<Longrightarrow>
   client_parse_packet p = Inr (None, PNone)"
  by (simp add: client_parse_packet_def)

lemma server_parse_header_prefix:
  "k < 6 \<Longrightarrow> server_parse_packet (take k (u16_be t @ r)) = Inr (None, PNone)"
  by (rule server_parse_lt6) (auto simp: slice_def)

lemma client_parse_header_prefix:
  assumes "t < 65536" "t \<noteq> AGREE" "k < 6"
  shows "client_parse_packet (take k (u16_be t @ r)) = Inr (None, PNone)"
proof (cases "k < 2")
  case True
  then show ?thesis by (simp add: parse_short)
next
  case False
  then have "slice (take k (u16_be t @ r)) 0 2 = u16_be t"
    by (simp add: slice_def)
  with assms show ?thesis
    by (intro client_parse_lt6 [where t = t]) (simp_all add: unpack_H_u16_be)
qed

lemma server_parse_body_prefix:
  assumes "t < 65536" "t \<noteq> INITIALIZATION" "length d < 4294967296" "k < 6 + length d"
  shows "server_parse_packet (take k (u16_be t @ u32_be (length d) @ d)) = Inr (None, PNone)"
proof (cases "k < 6")
  case True
  then show ?thesis by (rule server_parse_header_prefix)
next
  case False
  then have k: "6 \<le> k" by simp
  define q where "q = take k (u16_be t @ u32_be (length d) @ d)"
  have len: "length q = k"
    using assms(4) by (simp add: q_def)
  have h: "slice q 0 2 = u16_be t"
    using k by (simp add: q_def slice_def)
  have l: "slice q 2 6 = u32_be (length d)"
    using k by (simp add: q_def slice_def)
  have "server_parse_packet q = Inr (None, PNone)"
    unfolding server_parse_packet_def h l len
    using assms k by (simp add: unpack_H_u16_be unpack_I_u32_be)
  then show ?thesis
    by (simp only: q_def)
qed

lemma client_parse_body_prefix:
  assumes "t < 65536" "t \<noteq> AGREE" "length d < 4294967296" "k < 6 + length d"
  shows "client_parse_packet (take k (u16_be t @ u32_be (length d) @ d)) = Inr (None, PNone)"
proof (cases "k < 6")
  case True
  with assms show ?thesis by (intro client_parse_header_prefix)
next
  case False
  then have k: "6 \<le> k" by simp
  define q where "q = take k (u16_be t @ u32_be (length d) @ d)"
  have len: "length q = k"
    using assms(4) by (simp add: q_def)
  have h: "slice q 0 2 = u16_be t"
    using k by (simp add: q_def slice_def)
  have l: "slice q 2 6 = u32_be (length d)"
    using k by (simp add: q_def slice_def)
  have "client_parse_packet q = Inr (None, PNone)"
    unfolding client_parse_packet_def h l len
    using assms k by (simp add: unpack_H_u16_be unpack_I_u32_be)
  then show ?thesis
    by (simp only: q_def)
qed

text \<open>What \<open>create_packet\<close> can return, on either side.\<close>

lemma client_create_cases:
  assumes "client_create_packet ty v = Inr (Some p)"
  shows "(\<exists>n. n < 4294967296 \<and> p = u16_be INITIALIZATION @ u32_be n) \<or>
         (\<exists>d. length d < 4294967296 \<and> p = u16_be REVERSE_REQUEST @ u32_be (length d) @ d)"
  using assms
  by (auto simp: client_create_packet_def pack_HI_def split: if_splits pyval.splits)

lemma server_create_cases:
  assumes "server_create_packet ty v = Inr (Some p)"
  shows "p = u16_be AGREE \<or>
         (\<exists>d. length d < 4294967296 \<and> p = u16_be REVERSE_ANSWER @ u32_be (length d) @ d)"
  using assms
  by (auto simp: server_create_packet_def pack_HI_def pack_H_def split: if_splits pyval.splits)

section \<open>The codec round trip\<close>

text \<open>
  Claim C4. What one side builds with \<open>create_packet\<close> the other side's \<open>parse_packet\<close>
  reads back: the server recovers the block count of an initialization packet (any count
  that fits 32 bits) and the text of a request, the client recovers the agreement and the
  text of an answer. The text is ASCII and its length fits 32 bits.
\<close>

theorem codec_round_trip:
  assumes "n < 4294967296" and "length text < 4294967296"
    and "list_all (\<lambda>c. c < 128) text"
  shows "(\<exists>p. client_create_packet INITIALIZATION (PInt n) = Inr (Some p) \<and>
              server_parse_packet p = Inr (Some INITIALIZATION, PInt n)) \<and>
         (\<exists>b p. encode_ascii text = Inr b \<and>
              client_create_packet REVERSE_REQUEST (PBytes b) = Inr (Some p) \<and>
              server_parse_packet p = Inr (Some REVERSE_REQUEST, PStr text)) \<and>
         (\<exists>p. server_create_packet AGREE PNone = Inr (Some p) \<and>
              client_parse_packet p = Inr (Some AGREE, PNone)) \<and>
         (\<exists>b p. encode_ascii text = Inr b \<and>
              server_create_packet REVERSE_ANSWER (PBytes b) = Inr (Some p) \<and>
              client_parse_packet p = Inr (Some REVERSE_ANSWER, PStr text))"
proof -
  let ?b = "map of_nat text :: bytes"
  have enc: "encode_ascii text = Inr ?b"
    using assms(3) by (simp add: encode_ascii_def)
  have dec: "decode_ascii ?b = Inr text"
    using assms(3) by (rule decode_encode_ascii)
  have len: "length ?b < 4294967296"
    using assms(2) by simp
  have init: "server_parse_packet (u16_be INITIALIZATION @ u32_be n)
                = Inr (Some INITIALIZATION, PInt n)"
    using assms(1) by (rule server_parse_init)
  have req: "server_parse_packet (u16_be REVERSE_REQUEST @ u32_be (length ?b) @ ?b)
               = Inr (Some REVERSE_REQUEST, PStr text)"
    using server_parse_request [OF len] by (simp add: dec)
  have ans: "client_parse_packet (u16_be REVERSE_ANSWER @ u32_be (length ?b) @ ?b)
               = Inr (Some REVERSE_ANSWER, PStr text)"
    using client_parse_answer [OF len] by (simp add: dec)
  show ?thesis
    using client_create_init [OF assms(1)] init enc client_create_request [OF len] req
      server_create_agree [of PNone] client_parse_agree server_create_answer [OF len] ans
    by blast
qed

theorem codec_round_trip_witness:
  "server_parse_packet [0, 1, 0, 0, 1, 2] = Inr (Some INITIALIZATION, PInt 258) \<and>
   client_create_packet INITIALIZATION (PInt 258) = Inr (Some [0, 1, 0, 0, 1, 2]) \<and>
   (\<exists>p. client_create_packet REVERSE_REQUEST (PBytes [104, 105]) = Inr (Some p) \<and>
        server_parse_packet p = Inr (Some REVERSE_REQUEST, PStr [104, 105])) \<and>
   (\<exists>p. server_create_packet REVERSE_ANSWER (PBytes [104, 105]) = Inr (Some p) \<and>
        client_parse_packet p = Inr (Some REVERSE_ANSWER, PStr [104, 105]))"
  using codec_round_trip [of 258 "[104, 105]"]
  by (simp add: encode_ascii_def client_create_packet_def pack_HI_def u16_be_def u32_be_def
      packet_types)

section \<open>Truncated packets\<close>

text \<open>A packet that \<open>create_packet\<close> builds, cut short at any length, makes neither
  \<open>parse_packet\<close> raise, and both return \<open>(None, None)\<close>.\<close>

lemma truncated_packet_none:
  assumes "client_create_packet ty v = Inr (Some p) \<or> server_create_packet ty v = Inr (Some p)"
    and "k < length p"
  shows "server_parse_packet (take k p) = Inr (None, PNone) \<and>
         client_parse_packet (take k p) = Inr (None, PNone)"
proof -
  consider (init) n where "n < 4294967296" "p = u16_be INITIALIZATION @ u32_be n"
    | (agree) "p = u16_be AGREE"
    | (framed) t d where "t = REVERSE_REQUEST \<or> t = REVERSE_ANSWER" "length d < 4294967296"
        "p = u16_be t @ u32_be (length d) @ d"
    using assms(1) client_create_cases [of ty v p] server_create_cases [of ty v p] by blast
  then show ?thesis
  proof cases
    case init
    with assms(2) have k: "k < 6" by simp
    have "INITIALIZATION < 65536" "INITIALIZATION \<noteq> AGREE"
      by (simp_all add: packet_types)
    then show ?thesis
      unfolding init(2)
      by (intro conjI server_parse_header_prefix client_parse_header_prefix k)
  next
    case agree
    with assms(2) show ?thesis by (simp add: parse_short)
  next
    case framed
    from framed(1) have t: "t < 65536" "t \<noteq> INITIALIZATION" "t \<noteq> AGREE"
      by (auto simp: packet_types)
    from assms(2) have k: "k < 6 + length d"
      unfolding framed(3) by simp
    show ?thesis
      unfolding framed(3)
      using server_parse_body_prefix [OF t(1) t(2) framed(2) k]
        client_parse_body_prefix [OF t(1) t(3) framed(2) k] by simp
  qed
qed

section \<open>Payload bytes\<close>

text \<open>
  The payload \<open>0x80\<close>: a request and an answer, each as \<open>create_packet\<close> builds it,
  on which \<open>parse_packet\<close> raises.
\<close>

theorem parse_packet_raises_on_payload_counterexample:
  "client_create_packet REVERSE_REQUEST (PBytes [128]) = Inr (Some [0, 3, 0, 0, 0, 1, 128]) \<and>
   server_parse_packet [0, 3, 0, 0, 0, 1, 128] = Inl UnicodeDecodeError \<and>
   server_create_packet REVERSE_ANSWER (PBytes [128]) = Inr (Some [0, 4, 0, 0, 0, 1, 128]) \<and>
   client_parse_packet [0, 4, 0, 0, 0, 1, 128] = Inl UnicodeDecodeError"
  by (simp add: client_create_packet_def server_create_packet_def pack_HI_def u16_be_def
      u32_be_def server_parse_packet_def client_parse_packet_def slice_def decode_ascii_def
      packet_types)

text \<open>
  Claim C6, as the code has it. \<open>parse_packet\<close> itself decodes the payload as ASCII: on a
  well-framed request or answer it returns the payload as text when every byte is below
  128, and raises \<open>UnicodeDecodeError\<close> when one is not: the payload is checked inside
  the codec, and its bytes are not opaque to it.
\<close>

theorem parse_packet_decodes_payload:
  assumes "length d < 4294967296"
  shows "server_parse_packet (u16_be REVERSE_REQUEST @ u32_be (length d) @ d) =
           (if list_all (\<lambda>x. unat x < 128) d
            then Inr (Some REVERSE_REQUEST, PStr (map unat d))
            else Inl UnicodeDecodeError) \<and>
         client_parse_packet (u16_be REVERSE_ANSWER @ u32_be (length d) @ d) =
           (if list_all (\<lambda>x. unat x < 128) d
            then Inr (Some REVERSE_ANSWER, PStr (map unat d))
            else Inl UnicodeDecodeError)"
  using server_parse_request [OF assms] client_parse_answer [OF assms]
  by (simp add: decode_ascii_def)

theorem parse_packet_decodes_payload_witness:
  "server_parse_packet [0, 3, 0, 0, 0, 2, 104, 105] = Inr (Some REVERSE_REQUEST, PStr [104, 105]) \<and>
   client_parse_packet [0, 4, 0, 0, 0, 2, 104, 200] = Inl UnicodeDecodeError"
  using parse_packet_decodes_payload [of "[104, 105]"] parse_packet_decodes_payload [of "[104, 200]"]
  by (simp add: u16_be_def u32_be_def packet_types)

section \<open>Splitting the text\<close>

lemma randint_range:
  "a \<le> b \<Longrightarrow> \<exists>v. randint a b r = Inr v \<and> a \<le> v \<and> v \<le> b"
proof -
  assume ab: "a \<le> b"
  define m where "m = nat (b - a + 1)"
  have m: "int m = b - a + 1" "0 < m"
    using ab by (simp_all add: m_def)
  have "r mod m < m"
    using m(2) by simp
  then have "int (r mod m) < b - a + 1"
    using m(1) by linarith
  then have "a + int (r mod m) \<le> b"
    by simp
  with ab show ?thesis
    by (simp add: randint_def m_def)
qed

lemma py_slice_nat:
  "s \<le> e \<Longrightarrow> e \<le> length xs \<Longrightarrow> py_slice xs (int s) (int e) = take (e - s) (drop s xs)"
  by (simp add: py_slice_def clip_index_def slice_def)

lemma split_loop_from:
  assumes "0 < lmin" "lmin \<le> lmax" "s \<le> length content"
  shows "\<exists>bs. split_loop content lmin lmax rnd k (int s) acc = Some (Inr (acc @ bs)) \<and>
              concat bs = drop s content \<and> list_all (\<lambda>b. b \<noteq> [] \<and> int (length b) \<le> lmax) bs \<and>
              list_all (\<lambda>b. lmin \<le> int (length b)) (butlast bs)"
  using assms(3)
proof (induction "length content - s" arbitrary: s k acc rule: less_induct)
  case less
  show ?case
  proof (cases "s < length content")
    case False
    with less.prems have "s = length content" by simp
    then have "split_loop content lmin lmax rnd k (int s) acc = Some (Inr (acc @ []))"
      by (subst split_loop.simps) simp
    then show ?thesis
      by (intro exI [of _ "[]"]) (simp add: \<open>s = length content\<close>)
  next
    case True
    obtain v where v: "randint lmin lmax (rnd k) = Inr v" "lmin \<le> v" "v \<le> lmax"
      using randint_range [OF assms(2)] by blast
    define n where "n = nat v"
    have n: "v = int n" "0 < n"
      using v(2) assms(1) by (simp_all add: n_def)
    define e where "e = min (s + n) (length content)"
    have ev: "min (int s + v) (int (length content)) = int e"
      unfolding n(1) e_def by simp
    have se: "s < e" "e \<le> length content"
      using True n(2) by (simp_all add: e_def)
    define block where "block = take (e - s) (drop s content)"
    have blk: "py_slice content (int s) (int e) = block"
      using se by (simp add: py_slice_nat block_def)
    have step: "split_loop content lmin lmax rnd k (int s) acc =
                split_loop content lmin lmax rnd (Suc k) (int e) (acc @ [block])"
      using True by (subst split_loop.simps) (simp add: v(1) ev blk)
    have "length content - e < length content - s"
      using se by simp
    from less.hyps [OF this se(2), of "Suc k" "acc @ [block]"]
    obtain bs where bs: "split_loop content lmin lmax rnd (Suc k) (int e) (acc @ [block])
                           = Some (Inr ((acc @ [block]) @ bs))"
      "concat bs = drop e content" "list_all (\<lambda>b. b \<noteq> [] \<and> int (length b) \<le> lmax) bs \<and>
              list_all (\<lambda>b. lmin \<le> int (length b)) (butlast bs)"
      by blast
    have len: "length block = e - s"
      using se by (simp add: block_def)
    have cat: "concat (block # bs) = drop s content"
    proof -
      have "drop s content = take (e - s) (drop s content) @ drop (e - s) (drop s content)"
        by (simp only: append_take_drop_id)
      also have "drop (e - s) (drop s content) = drop e content"
        using se by simp
      finally show ?thesis
        by (simp add: bs(2) block_def)
    qed
    have upper: "int (length block) \<le> lmax"
      using v(3) len n(1) by (simp add: e_def)
    have lower: "lmin \<le> int (length block)" if "bs \<noteq> []"
    proof -
      from that bs(3) have "concat bs \<noteq> []"
        by (cases bs) auto
      then have "e < length content"
        using bs(2) by simp
      then have "e = s + n"
        by (simp add: e_def min_def split: if_splits)
      with v(2) n(1) len show ?thesis by simp
    qed
    have "list_all (\<lambda>b. b \<noteq> [] \<and> int (length b) \<le> lmax) (block # bs) \<and>
          list_all (\<lambda>b. lmin \<le> int (length b)) (butlast (block # bs))"
      using bs(3) upper lower se len
      by auto
    with step bs(1) cat show ?thesis
      by (intro exI [of _ "block # bs"]) simp
  qed
qed

text \<open>The loop ends, and its blocks are within the bounds and cover the text.\<close>

lemma split_loop_bounds:
  assumes "0 < lmin" and "lmin \<le> lmax"
  shows "\<exists>blocks. split_loop content lmin lmax rnd 0 0 [] = Some (Inr blocks) \<and>
           concat blocks = content \<and>
           (\<forall>b \<in> set blocks. b \<noteq> [] \<and> int (length b) \<le> lmax) \<and>
           (\<forall>b \<in> set (butlast blocks). lmin \<le> int (length b) \<and> int (length b) \<le> lmax) \<and>
           (content \<noteq> [] \<longrightarrow> blocks \<noteq> [] \<and>
              last blocks = drop (length (concat (butlast blocks))) content)"
proof -
  obtain bs where bs: "split_loop content lmin lmax rnd 0 (int 0) [] = Some (Inr ([] @ bs))"
    "concat bs = drop 0 content"
    "list_all (\<lambda>b. b \<noteq> [] \<and> int (length b) \<le> lmax) bs \<and>
     list_all (\<lambda>b. lmin \<le> int (length b)) (butlast bs)"
    using split_loop_from [OF assms, of 0 content rnd 0 "[]"] by blast
  have all: "\<forall>b \<in> set bs. b \<noteq> [] \<and> int (length b) \<le> lmax"
    using bs(3) by (simp add: list_all_iff)
  have inner: "\<forall>b \<in> set (butlast bs). lmin \<le> int (length b) \<and> int (length b) \<le> lmax"
    using bs(3) all by (auto simp: list_all_iff dest: in_set_butlastD)
  have rest: "bs \<noteq> [] \<and> last bs = drop (length (concat (butlast bs))) content"
    if "content \<noteq> []"
  proof -
    from that bs(2) have ne: "bs \<noteq> []" by auto
    then have "concat (butlast bs) @ last bs = content"
      using bs(2) by (metis append_butlast_last_id concat.simps concat_append drop0 self_append_conv)
    then have "drop (length (concat (butlast bs))) content = last bs"
      by (metis append_eq_conv_conj)
    with ne show ?thesis by simp
  qed
  show ?thesis
    using bs(1,2) all inner rest by (intro exI [of _ bs]) simp
qed

lemma split_loop_hello_world:
  "split_loop (map of_char ''hello world'' :: pystr) 5 5 (\<lambda>k. 0) 0 0 [] =
     Some (Inr [map of_char ''hello'', map of_char '' worl'', map of_char ''d''])"
  by (simp add: split_loop.simps randint_def py_slice_def clip_index_def slice_def)

section \<open>The server worker\<close>

declare recv_text.simps [simp del] recv_data.simps [simp del] serve_blocks.simps [simp del]

lemma handle_client_result:
  "sent (handle_client sock s conn thread g) = fst (handle_client_try sock s)"
  "processed (handle_client sock s conn thread g) = fst (snd (handle_client_try sock s))"
  "exit_by (handle_client sock s conn thread g) = snd (snd (handle_client_try sock s))"
  "closed (handle_client sock s conn thread g)"
  by (simp_all add: handle_client_def Let_def split: prod.split)

lemma handle_client_globals:
  "globals (handle_client sock s conn thread g) =
     \<lparr>client_threads = remove1 thread (client_threads g),
      client_connections = remove1 conn (client_connections g @ [conn])\<rparr>"
  by (simp add: handle_client_def Let_def remove1_idem split: prod.split)

lemma serve_blocks_sent:
  "\<exists>more. fst (serve_blocks sock n i out s) = out @ more"
proof (induction sock n i out s rule: serve_blocks.induct)
  case (1 sock n_blocks block_index out s)
  show ?case
  proof (cases "block_index < n_blocks")
    case False
    then show ?thesis by (simp add: serve_blocks.simps [of sock n_blocks block_index])
  next
    case True
    note unfold = serve_blocks.simps [of sock n_blocks block_index out s]
    obtain ps r where sb: "serve_block sock s = (ps, r)"
      by (cases "serve_block sock s")
    show ?thesis
    proof (cases r)
      case (Inl x)
      with True sb show ?thesis by (simp add: unfold)
    next
      case (Inr s')
      from "1.IH" [OF True sb [symmetric] Inr] obtain more
        where "fst (serve_blocks sock n_blocks (Suc block_index) (out @ ps) s') = (out @ ps) @ more"
        by blast
      with True sb Inr show ?thesis by (simp add: unfold)
    qed
  qed
qed

lemma server_parse_init_value:
  "server_parse_packet data = Inr (Some INITIALIZATION, v) \<Longrightarrow> \<exists>n. v = PInt n"
  by (auto simp: server_parse_packet_def packet_types split: if_splits sum.splits)

lemma ascii_rev_bytes:
  "list_all (\<lambda>x. unat x < 128) d \<Longrightarrow> encode_ascii (rev (map unat d)) = Inr (rev d)"
  using encode_decode_ascii [of "rev d"] by (simp add: rev_map)

lemma serve_block_request:
  assumes run: "running sock s"
    and hdr: "recv sock s 6 = Inr (u16_be REVERSE_REQUEST @ u32_be (length d), s1)"
    and body: "recv_text sock (length d) [] s1 = Inr (d, s2)"
    and ascii: "list_all (\<lambda>x. unat x < 128) d"
    and len: "length d < 4294967296"
    and snd: "send sock s2 (answer_packet (rev d)) = Inr s3"
  shows "serve_block sock s = ([answer_packet (rev d)], Inr s3)"
proof -
  let ?h = "u16_be REVERSE_REQUEST @ u32_be (length d)"
  have h6: "length ?h = 6" by simp
  have sl: "slice ?h 2 6 = u32_be (length d)"
    using slice_len [of "u16_be REVERSE_REQUEST" "u32_be (length d)" "[]"] by simp
  have un: "unpack_I (slice ?h 2 6) = Inr (length d)"
    using len by (simp add: sl unpack_I_u32_be)
  have parse: "server_parse_packet (?h @ d) = Inr (Some REVERSE_REQUEST, PStr (map unat d))"
    using server_parse_request [OF len] ascii by (simp add: decode_ascii_def)
  have enc: "encode_ascii (rev (map unat d)) = Inr (rev d)"
    using ascii by (rule ascii_rev_bytes)
  have mk: "server_create_packet REVERSE_ANSWER (PBytes (rev d)) = Inr (Some (answer_packet (rev d)))"
    using server_create_answer [of "rev d"] len by (simp add: answer_packet_def)
  show ?thesis
    unfolding serve_block_def
    by (simp only: run hdr h6 un body parse enc mk snd not_True_eq_False if_False
        sum.case prod.case option.case pyval.case less_irrefl simp_thms)
qed

lemma requests_arrive_Cons:
  assumes "requests_arrive sock s (d # ds) s'"
  shows "\<exists>s1 s2 s3. running sock s \<and>
           recv sock s 6 = Inr (u16_be REVERSE_REQUEST @ u32_be (length d), s1) \<and>
           recv_text sock (length d) [] s1 = Inr (d, s2) \<and>
           send sock s2 (answer_packet (rev d)) = Inr s3 \<and>
           requests_arrive sock s3 ds s'"
proof -
  from assms have run: "running sock s" by simp
  from assms obtain header s1 where r: "recv sock s 6 = Inr (header, s1)"
    by (cases "recv sock s 6") auto
  from assms r have h: "header = u16_be REVERSE_REQUEST @ u32_be (length d)" by simp
  from assms r obtain text_data s2 where t: "recv_text sock (length d) [] s1 = Inr (text_data, s2)"
    by (cases "recv_text sock (length d) [] s1") auto
  from assms r t have d: "text_data = d" by simp
  from assms r t obtain s3 where sd: "send sock s2 (answer_packet (rev d)) = Inr s3"
    by (cases "send sock s2 (answer_packet (rev d))") auto
  from assms r t sd have "requests_arrive sock s3 ds s'" by simp
  with run r h t d sd show ?thesis by blast
qed


lemma serve_blocks_forward:
  assumes "requests_arrive sock s ds s'"
    and "list_all (\<lambda>d. list_all (\<lambda>x. unat x < 128) d \<and> length d < 4294967296) ds"
    and "i + length ds \<le> n"
  shows "serve_blocks sock n i out s =
         serve_blocks sock n (i + length ds) (out @ map (\<lambda>d. answer_packet (rev d)) ds) s'"
  using assms
proof (induction ds arbitrary: s i out)
  case Nil
  then show ?case by simp
next
  case (Cons d ds)
  from requests_arrive_Cons [OF Cons.prems(1)] obtain s1 s2 s3 where
    run: "running sock s"
    and hdr: "recv sock s 6 = Inr (u16_be REVERSE_REQUEST @ u32_be (length d), s1)"
    and body: "recv_text sock (length d) [] s1 = Inr (d, s2)"
    and snd: "send sock s2 (answer_packet (rev d)) = Inr s3"
    and rest: "requests_arrive sock s3 ds s'"
    by blast
  from Cons.prems(2) have d: "list_all (\<lambda>x. unat x < 128) d" "length d < 4294967296"
    and ds: "list_all (\<lambda>d. list_all (\<lambda>x. unat x < 128) d \<and> length d < 4294967296) ds"
    by simp_all
  have one: "serve_block sock s = ([answer_packet (rev d)], Inr s3)"
    using run hdr body d snd by (rule serve_block_request)
  from Cons.prems(3) have i: "i < n" "Suc i + length ds \<le> n"
    by simp_all
  have "serve_blocks sock n i out s =
        serve_blocks sock n (Suc i) (out @ [answer_packet (rev d)]) s3"
    using i(1) one by (simp add: serve_blocks.simps [of sock n i])
  also have "\<dots> = serve_blocks sock n (Suc i + length ds)
      ((out @ [answer_packet (rev d)]) @ map (\<lambda>d. answer_packet (rev d)) ds) s'"
    using rest ds i(2) by (rule Cons.IH)
  finally show ?case by simp
qed


section \<open>The worker on a stream of packets\<close>

lemma stream_recv:
  "recv stream_socket s n = Inr (take n s, drop n s)"
  by (simp add: stream_socket_def)

lemma stream_socket_simps [simp]:
  "send stream_socket s d = Inr s"
  "running stream_socket s"
  by (simp_all add: stream_socket_def)

lemma recv_text_stream:
  "recv_text stream_socket (length d) [] (d @ rest) = Inr (d, rest)"
proof (cases "d = []")
  case True
  then show ?thesis by (simp add: recv_text.simps)
next
  case False
  have "recv_text stream_socket (length d) [] (d @ rest) =
        recv_text stream_socket (length d) ([] @ d) rest"
    using False by (subst recv_text.simps) (simp add: stream_recv)
  also have "\<dots> = Inr (d, rest)"
    by (subst recv_text.simps) simp
  finally show ?thesis .
qed

lemma recv_request_header:
  "recv stream_socket (request_packet d @ rest) 6 =
     Inr (u16_be REVERSE_REQUEST @ u32_be (length d), d @ rest)"
  by (simp add: request_packet_def stream_recv)

lemma recv_init_packet:
  "recv stream_socket (init_packet n @ rest) 6 = Inr (init_packet n, rest)"
  by (simp add: init_packet_def stream_recv)

lemma requests_arrive_stream:
  "requests_arrive stream_socket (concat (map request_packet ds) @ rest) ds rest"
  by (induction ds) (simp_all add: recv_request_header recv_text_stream)

section \<open>The start of a session\<close>

lemma handle_client_try_init:
  assumes "recv sock s 6 = Inr (data, s1)" and "6 \<le> length data"
    and "server_parse_packet data = Inr (Some INITIALIZATION, PInt n)"
  shows "\<exists>more. fst (handle_client_try sock s) = agree_packet # more"
proof -
  have data: "data \<noteq> []" "\<not> length data < 6"
    using assms(2) by auto
  have mk: "server_create_packet AGREE PNone = Inr (Some agree_packet)"
    by (simp add: server_create_agree agree_packet_def)
  show ?thesis
  proof (cases "send sock s1 agree_packet")
    case (Inl e)
    then show ?thesis
      by (simp add: handle_client_try_def assms(1,3) data mk)
  next
    case (Inr s2)
    obtain more where "fst (serve_blocks sock n 0 [agree_packet] s2) = [agree_packet] @ more"
      using serve_blocks_sent [of sock n 0 "[agree_packet]" s2] by blast
    with Inr show ?thesis
      by (simp add: handle_client_try_def assms(1,3) data mk)
  qed
qed

lemma handle_client_try_no_init:
  assumes "\<not> (\<exists>data s1 n. recv sock s 6 = Inr (data, s1) \<and> 6 \<le> length data \<and>
                server_parse_packet data = Inr (Some INITIALIZATION, PInt n))"
  shows "\<exists>x. handle_client_try sock s = ([], 0, x) \<and>
             (x = InitIncomplete \<or> x = InitInvalid \<or> (\<exists>e. x = Raised e))"
proof (cases "recv sock s 6")
  case (Inl e)
  then show ?thesis by (simp add: handle_client_try_def)
next
  case (Inr r)
  obtain data s1 where r: "r = (data, s1)" by (cases r)
  show ?thesis
  proof (cases "data = [] \<or> length data < 6")
    case True
    with Inr r show ?thesis by (simp add: handle_client_try_def)
  next
    case False
    then have long: "6 \<le> length data" by simp
    show ?thesis
    proof (cases "server_parse_packet data")
      case (Inl e)
      with Inr r False show ?thesis by (simp add: handle_client_try_def)
    next
      case parsed: (Inr pv)
      obtain packet_type v where pv: "pv = (packet_type, v)" by (cases pv)
      have "packet_type \<noteq> Some INITIALIZATION"
      proof
        assume "packet_type = Some INITIALIZATION"
        with parsed pv server_parse_init_value [of data v] obtain n
          where "server_parse_packet data = Inr (Some INITIALIZATION, PInt n)"
          by auto
        with assms Inr r long show False by blast
      qed
      with Inr r False parsed pv show ?thesis by (simp add: handle_client_try_def)
    qed
  qed
qed

text \<open>
  Claim C8. The worker first reads six bytes. If they are there and parse as an
  initialization packet, the first packet it sends is the agreement. In every other case
  (the read raises, fewer than six bytes arrive, the bytes are another packet or none)
  it sends nothing at all, processes no block, leaves the \<open>try\<close> block by one of the
  failure paths, and the connection is closed.
\<close>

theorem agree_iff_initialization:
  "(if \<exists>data s1 n. recv sock s 6 = Inr (data, s1) \<and> 6 \<le> length data \<and>
         server_parse_packet data = Inr (Some INITIALIZATION, PInt n)
    then \<exists>more. sent (handle_client sock s conn thread g) = agree_packet # more
    else sent (handle_client sock s conn thread g) = [] \<and>
         processed (handle_client sock s conn thread g) = 0 \<and>
         (exit_by (handle_client sock s conn thread g) = InitIncomplete \<or>
          exit_by (handle_client sock s conn thread g) = InitInvalid \<or>
          (\<exists>e. exit_by (handle_client sock s conn thread g) = Raised e))) \<and>
   closed (handle_client sock s conn thread g)"
proof (cases "\<exists>data s1 n. recv sock s 6 = Inr (data, s1) \<and> 6 \<le> length data \<and>
         server_parse_packet data = Inr (Some INITIALIZATION, PInt n)")
  case True
  then obtain data s1 n where "recv sock s 6 = Inr (data, s1)" "6 \<le> length data"
    "server_parse_packet data = Inr (Some INITIALIZATION, PInt n)"
    by blast
  from handle_client_try_init [OF this] True show ?thesis
    by (simp add: handle_client_result)
next
  case False
  from handle_client_try_no_init [OF this] obtain x where
    "handle_client_try sock s = ([], 0, x)"
    "x = InitIncomplete \<or> x = InitInvalid \<or> (\<exists>e. x = Raised e)"
    by blast
  with False show ?thesis
    by (simp add: handle_client_result)
qed

theorem agree_iff_initialization_witness:
  "(\<exists>more. sent (handle_client stream_socket (init_packet 2) (1::nat) (7::nat)
       \<lparr>client_threads = [7], client_connections = []\<rparr>) = agree_packet # more) \<and>
   sent (handle_client stream_socket [0, 1, 0] (1::nat) (7::nat)
       \<lparr>client_threads = [7], client_connections = []\<rparr>) = []"
proof -
  let ?g = "\<lparr>client_threads = [7::nat], client_connections = [] :: nat list\<rparr>"
  have "recv stream_socket (init_packet 2) 6 = Inr (init_packet 2, []) \<and>
        6 \<le> length (init_packet 2) \<and>
        server_parse_packet (init_packet 2) = Inr (Some INITIALIZATION, PInt 2)"
    using recv_init_packet [of 2 "[]"] server_parse_init [of 2]
    by (simp add: init_packet_def)
  then have yes: "\<exists>data s1 n. recv stream_socket (init_packet 2) 6 = Inr (data, s1) \<and>
      6 \<le> length data \<and> server_parse_packet data = Inr (Some INITIALIZATION, PInt n)"
    by blast
  have no: "\<not> (\<exists>data s1 n. recv stream_socket [0, 1, 0] 6 = Inr (data, s1) \<and>
      6 \<le> length data \<and> server_parse_packet data = Inr (Some INITIALIZATION, PInt n))"
    by (auto simp: stream_recv)
  show ?thesis
    using agree_iff_initialization [of stream_socket "init_packet 2" 1 7 ?g]
      agree_iff_initialization [of stream_socket "[0, 1, 0]" 1 7 ?g] yes no
    by (simp only: if_True if_False)
qed

section \<open>The registries\<close>

text \<open>
  Whatever the peer and the network do, and so on every way out of the \<open>try\<close> block,
  \<open>handle_client\<close> returns with its socket closed, its connection no longer in
  \<open>client_connections\<close> and its thread no longer in \<open>client_threads\<close>; the other entries
  of both lists are as they were. The connection is a new one, not yet listed when the
  worker starts, and a thread is listed at most once.
\<close>

lemma handle_client_cleans_up:
  assumes "conn \<notin> set (client_connections g)" and "distinct (client_threads g)"
  shows "closed (handle_client sock s conn thread g) \<and>
         conn \<notin> set (client_connections (globals (handle_client sock s conn thread g))) \<and>
         thread \<notin> set (client_threads (globals (handle_client sock s conn thread g))) \<and>
         client_connections (globals (handle_client sock s conn thread g)) =
           client_connections g \<and>
         client_threads (globals (handle_client sock s conn thread g)) =
           remove1 thread (client_threads g)"
  using assms
  by (simp add: handle_client_result handle_client_globals remove1_append)

text \<open>The dispatcher lists the thread after starting it (line 196). A worker that has
  ended before that line runs finds nothing to remove, and the thread is listed after
  its end.\<close>

lemma registration_after_exit:
  "thread \<in> set (client_threads
     (register_thread thread (globals (handle_client sock s conn thread g))))"
  by (simp add: register_thread_def)

section \<open>The handshake of the client\<close>

lemma unpack_H_agree: "unpack_H bs = Inr AGREE \<Longrightarrow> bs = agree_packet"
proof (cases bs rule: unpack_H.cases)
  case (1 a b)
  assume "unpack_H bs = Inr AGREE"
  with 1 have eq: "256 * unat a + unat b = 2"
    by (simp add: AGREE_def)
  then have a: "unat a = 0"
    by (cases "unat a") simp_all
  with eq have b: "unat b = 2"
    by simp
  from a b have "a = 0" "b = 2"
    by (simp_all add: word_unat_eq_iff)
  with 1 show ?thesis
    by (simp add: agree_packet_def u16_be_def AGREE_def)
qed simp_all

lemma client_parse_type:
  assumes "client_parse_packet data = Inr (Some t, v)"
  shows "2 \<le> length data \<and> unpack_H (slice data 0 2) = Inr t"
  using assms
  by (auto simp: client_parse_packet_def split: if_splits sum.splits)

lemma client_parse_is_agree:
  assumes "client_parse_packet data = Inr (Some AGREE, v)"
  shows "take 2 data = agree_packet"
  using client_parse_type [OF assms] unpack_H_agree [of "slice data 0 2"]
  by (simp add: slice_def)

lemma client_parse_agree_prefix:
  assumes "2 \<le> length data" and "take 2 data = agree_packet"
  shows "client_parse_packet data = Inr (Some AGREE, PNone)"
proof -
  have "unpack_H (slice data 0 2) = Inr AGREE"
    using assms(2) by (simp add: slice_def agree_packet_def unpack_H_u16_be AGREE_def)
  with assms(1) show ?thesis
    by (simp add: client_parse_packet_def)
qed

lemma client_create_init_packet:
  "client_create_packet INITIALIZATION (PInt n) =
     (if n < 4294967296 then Inr (Some (init_packet n)) else Inl StructError)"
  by (simp add: client_create_packet_def pack_HI_def init_packet_def packet_types)

lemma handshake_agreed:
  assumes "n < 4294967296"
    and "connect sock s = Inr s1"
    and "sendall sock s1 (init_packet n) = Inr s2"
    and "recv sock s2 2 = Inr (data, s3)"
    and "2 \<le> length data" and "take 2 data = agree_packet"
  shows "handshake sock s n = ([init_packet n], Inr s3)"
  using assms client_parse_agree_prefix [OF assms(5,6)]
  by (simp add: handshake_def client_create_init_packet)

lemma handshake_cases:
  "(\<exists>out x. handshake sock s n = (out, Inl x) \<and> (out = [] \<or> out = [init_packet n]) \<and>
       (x = ConnectFailed \<or> x = InitFailed \<or> x = AgreeFailed)) \<or>
   (\<exists>s1 s2 data s3. handshake sock s n = ([init_packet n], Inr s3) \<and> n < 4294967296 \<and>
       connect sock s = Inr s1 \<and> sendall sock s1 (init_packet n) = Inr s2 \<and>
       recv sock s2 2 = Inr (data, s3) \<and> 2 \<le> length data \<and> take 2 data = agree_packet)"
proof (cases "connect sock s")
  case (Inl e)
  then show ?thesis by (simp add: handshake_def)
next
  case c: (Inr s1)
  show ?thesis
  proof (cases "n < 4294967296")
    case False
    with c show ?thesis by (simp add: handshake_def client_create_init_packet)
  next
    case n: True
    show ?thesis
    proof (cases "sendall sock s1 (init_packet n)")
      case (Inl e)
      with c n show ?thesis by (simp add: handshake_def client_create_init_packet)
    next
      case sd: (Inr s2)
      show ?thesis
      proof (cases "recv sock s2 2")
        case (Inl e)
        with c n sd show ?thesis by (simp add: handshake_def client_create_init_packet)
      next
        case (Inr r)
        obtain data s3 where r: "recv sock s2 2 = Inr (data, s3)"
          using Inr by (cases r) simp
        show ?thesis
        proof (cases "length data < 2")
          case True
          with c n sd r show ?thesis by (simp add: handshake_def client_create_init_packet)
        next
          case long: False
          show ?thesis
          proof (cases "client_parse_packet data")
            case (Inl e)
            with c n sd r long show ?thesis
              by (simp add: handshake_def client_create_init_packet)
          next
            case (Inr pv)
            obtain packet_type v where pv: "client_parse_packet data = Inr (packet_type, v)"
              using Inr by (cases pv) simp
            show ?thesis
            proof (cases "packet_type = Some AGREE")
              case False
              with c n sd r long pv show ?thesis
                by (simp add: handshake_def client_create_init_packet)
            next
              case True
              with pv have "take 2 data = agree_packet"
                by (simp add: client_parse_is_agree)
              moreover have "handshake sock s n = ([init_packet n], Inr s3)"
                using c n sd r long pv True by (simp add: handshake_def client_create_init_packet)
              ultimately show ?thesis
                using c n sd r long by auto
            qed
          qed
        qed
      qed
    qed
  qed
qed

section \<open>The loop over the blocks\<close>

lemma exchange_blocks_out:
  "\<exists>more. fst (exchange_blocks sock blocks i rb out s) = out @ more"
proof (induction blocks arbitrary: i rb out s)
  case Nil
  then show ?case by simp
next
  case (Cons block rest)
  obtain req r where eb: "exchange_block sock s block = (req, r)"
    by (cases "exchange_block sock s block")
  show ?case
  proof (cases r)
    case None
    with eb show ?thesis by simp
  next
    case (Some ts)
    obtain t s' where ts: "ts = (t, s')" by (cases ts)
    from Cons.IH [of "Suc i" "rb[i := Some t]" "out @ req" s'] obtain more
      where "fst (exchange_blocks sock rest (Suc i) (rb[i := Some t]) (out @ req) s')
             = (out @ req) @ more"
      by blast
    with eb Some ts show ?thesis by simp
  qed
qed


section \<open>The client's session\<close>

lemma client_session_stopped:
  assumes "handshake sock s (length blocks) = (out, Inl x)"
  shows "client_session sock s blocks = stopped out (replicate (length blocks) None) x"
  using assms by (simp add: client_session_def)

lemma client_session_exchanged:
  assumes "handshake sock s (length blocks) = (out, Inr s3)"
    and "exchange_blocks sock blocks 0 (replicate (length blocks) None) out s3 = (out', rb)"
  shows "client_session sock s blocks =
           (if list_all (\<lambda>block. block \<noteq> None) rb
            then \<lparr>transmitted = out', reversed_blocks = rb,
                   output_file = Some (concat (map the rb)), ended = OutputWritten\<rparr>
            else stopped out' rb OutputSkipped)"
  using assms by (simp add: client_session_def)

text \<open>
  Claim C7. Unless the connection is made, \<open>sendall\<close> accepts the initialization
  packet, and the \<open>recv(2)\<close> that follows returns at least two bytes that start with the
  agreement, the run ends with nothing passed to \<open>sendall\<close> but, at most, the
  initialization packet: no request is sent, no result is stored and no output file is
  written. When all that happens, the first packet sent is the initialization packet,
  and any request comes after it.
\<close>

theorem no_request_before_agree:
  "(if \<exists>s1 s2 data s3. connect sock s = Inr s1 \<and>
          sendall sock s1 (init_packet (length blocks)) = Inr s2 \<and>
          recv sock s2 2 = Inr (data, s3) \<and> 2 \<le> length data \<and> take 2 data = agree_packet
    then transmitted (client_session sock s blocks) = [] \<or>
         (\<exists>more. transmitted (client_session sock s blocks) =
                   init_packet (length blocks) # more)
    else (transmitted (client_session sock s blocks) = [] \<or>
          transmitted (client_session sock s blocks) = [init_packet (length blocks)]) \<and>
         output_file (client_session sock s blocks) = None \<and>
         reversed_blocks (client_session sock s blocks) = replicate (length blocks) None \<and>
         (ended (client_session sock s blocks) = ConnectFailed \<or>
          ended (client_session sock s blocks) = InitFailed \<or>
          ended (client_session sock s blocks) = AgreeFailed))"
proof -
  let ?n = "length blocks"
  from handshake_cases [of sock s ?n]
  consider (failed) out x where "handshake sock s ?n = (out, Inl x)"
      "out = [] \<or> out = [init_packet ?n]"
      "x = ConnectFailed \<or> x = InitFailed \<or> x = AgreeFailed"
    | (agreed) s1 s2 data s3 where "handshake sock s ?n = ([init_packet ?n], Inr s3)"
      "connect sock s = Inr s1" "sendall sock s1 (init_packet ?n) = Inr s2"
      "recv sock s2 2 = Inr (data, s3)" "2 \<le> length data" "take 2 data = agree_packet"
    by blast
  then show ?thesis
  proof cases
    case failed
    have r: "client_session sock s blocks = stopped out (replicate ?n None) x"
      using failed(1) by (rule client_session_stopped)
    show ?thesis
      unfolding r using failed(2,3) by (auto simp: stopped_def)
  next
    case agreed
    obtain out' rb where e: "exchange_blocks sock blocks 0 (replicate ?n None)
        [init_packet ?n] s3 = (out', rb)"
      by (cases "exchange_blocks sock blocks 0 (replicate ?n None) [init_packet ?n] s3")
    from exchange_blocks_out [of sock blocks 0 "replicate ?n None" "[init_packet ?n]" s3] e
    obtain more where more: "out' = init_packet ?n # more"
      by auto
    have t: "transmitted (client_session sock s blocks) = out'"
      unfolding client_session_exchanged [OF agreed(1) e] by (simp add: stopped_def)
    have "\<exists>s1 s2 data s3. connect sock s = Inr s1 \<and>
          sendall sock s1 (init_packet ?n) = Inr s2 \<and>
          recv sock s2 2 = Inr (data, s3) \<and> 2 \<le> length data \<and> take 2 data = agree_packet"
      using agreed(2-6) by blast
    then show ?thesis
      by (simp only: if_True t more) blast
  qed
qed

theorem no_request_before_agree_witness:
  "output_file (client_session (stream_socket\<lparr>connect := \<lambda>s. Inl ConnectionRefusedError\<rparr>)
      [] [[104, 105]]) = None \<and>
   reversed_blocks (client_session (stream_socket\<lparr>connect := \<lambda>s. Inl ConnectionRefusedError\<rparr>)
      [] [[104, 105]]) = [None]"
proof -
  let ?sock = "stream_socket\<lparr>connect := \<lambda>s. Inl ConnectionRefusedError\<rparr>"
  have no: "\<not> (\<exists>s1 s2 data s3. connect ?sock [] = Inr s1 \<and>
          sendall ?sock s1 (init_packet (length [[104, 105 :: nat]])) = Inr s2 \<and>
          recv ?sock s2 2 = Inr (data, s3) \<and> 2 \<le> length data \<and> take 2 data = agree_packet)"
    by simp
  show ?thesis
    using no_request_before_agree [of ?sock "[]" "[[104, 105]]"] no
    by (simp only: if_False) simp
qed

section \<open>The worker behind the client's socket\<close>

lemma serve_blocks_starved:
  "serve_blocks stream_socket n k out [] =
     (out, k, if k < n then HeaderIncomplete else Completed)"
proof (cases "k < n")
  case True
  have "serve_block stream_socket [] = ([], Inl HeaderIncomplete)"
    by (simp add: serve_block_def stream_recv)
  with True show ?thesis
    by (simp add: serve_blocks.simps [of stream_socket n k])
next
  case False
  then show ?thesis
    by (simp add: serve_blocks.simps [of stream_socket n k])
qed

lemma handle_client_try_stream:
  assumes "n < 4294967296" and "length ds \<le> n"
    and "list_all (\<lambda>d. list_all (\<lambda>x. unat x < 128) d \<and> length d < 4294967296) ds"
  shows "handle_client_try stream_socket (init_packet n @ concat (map request_packet ds)) =
           (agree_packet # map (\<lambda>d. answer_packet (rev d)) ds, length ds,
            if length ds < n then HeaderIncomplete else Completed)"
proof -
  let ?rest = "concat (map request_packet ds)"
  have parse: "server_parse_packet (init_packet n) = Inr (Some INITIALIZATION, PInt n)"
    using assms(1) by (simp add: init_packet_def server_parse_init)
  have len: "init_packet n \<noteq> []" "\<not> length (init_packet n) < 6"
    by (auto simp: init_packet_def u16_be_def)
  have mk: "server_create_packet AGREE PNone = Inr (Some agree_packet)"
    by (simp add: server_create_agree agree_packet_def)
  have arrive: "requests_arrive stream_socket ?rest ds []"
    using requests_arrive_stream [of ds "[]"] by simp
  have "serve_blocks stream_socket n 0 [agree_packet] ?rest =
        serve_blocks stream_socket n (0 + length ds)
          ([agree_packet] @ map (\<lambda>d. answer_packet (rev d)) ds) []"
    using arrive assms(3) by (rule serve_blocks_forward) (simp add: assms(2))
  then have loop: "serve_blocks stream_socket n 0 [agree_packet] ?rest =
      (agree_packet # map (\<lambda>d. answer_packet (rev d)) ds, length ds,
       if length ds < n then HeaderIncomplete else Completed)"
    by (simp add: serve_blocks_starved)
  show ?thesis
    unfolding handle_client_try_def
    by (simp add: recv_init_packet parse len mk loop)
qed

lemma server_peer_connect: "connect server_peer s = Inr s"
  by (simp add: server_peer_def)

lemma server_peer_sendall: "sendall server_peer (inp, got) d = Inr (inp @ d, got)"
  by (simp add: server_peer_def)

lemma server_peer_recv:
  assumes "handle_client_try stream_socket inp = (out, index, x)"
    and "concat out = before @ a" and "length before = got" and "a \<noteq> []"
  shows "recv server_peer (inp, got) m = Inr (take m a, (inp, got + length (take m a)))"
  using assms by (simp add: server_peer_def)

lemma ascii_bytes:
  assumes "list_all (\<lambda>c. c < 128) b"
  shows "encode_ascii b = Inr (map of_nat b)"
    and "list_all (\<lambda>x. unat x < 128) (map of_nat b :: bytes)"
    and "map unat (map of_nat b :: bytes) = b"
proof -
  show "encode_ascii b = Inr (map of_nat b)"
    using assms by (simp add: encode_ascii_def)
  have dec: "decode_ascii (map of_nat b) = Inr b"
    using assms by (rule decode_encode_ascii)
  then show "list_all (\<lambda>x. unat x < 128) (map of_nat b :: bytes)"
    by (simp add: decode_ascii_def split: if_splits)
  from dec show "map unat (map of_nat b :: bytes) = b"
    by (simp add: decode_ascii_def split: if_splits)
qed

lemma recv_data_peer:
  assumes "handle_client_try stream_socket inp = (out, index, x)"
    and "concat out = before @ d" and "length before = got"
  shows "recv_data server_peer (length d) [] (inp, got) = Inr (d, (inp, got + length d))"
proof (cases "d = []")
  case True
  then show ?thesis by (simp add: recv_data.simps)
next
  case False
  have r: "recv server_peer (inp, got) (length d) = Inr (d, (inp, got + length d))"
    using server_peer_recv [OF assms False, of "length d"] by simp
  have "recv_data server_peer (length d) [] (inp, got) =
        recv_data server_peer (length d) ([] @ d) (inp, got + length d)"
    using False by (subst recv_data.simps) (simp add: r)
  also have "\<dots> = Inr (d, (inp, got + length d))"
    by (subst recv_data.simps) simp
  finally show ?thesis .
qed

lemma exchange_block_peer:
  assumes ascii: "list_all (\<lambda>c. c < 128) b" and len: "length b < 4294967296"
    and run: "handle_client_try stream_socket (inp @ request_packet (map of_nat b)) =
                (outs @ [answer_packet (rev (map of_nat b))], index, x)"
    and got: "length (concat outs) = got"
  shows "exchange_block server_peer (inp, got) b =
           ([request_packet (map of_nat b)],
            Some (rev b, (inp @ request_packet (map of_nat b),
                          got + length (answer_packet (rev (map of_nat b))))))"
proof -
  let ?d = "map of_nat b :: bytes"
  let ?req = "request_packet ?d"
  let ?h = "u16_be REVERSE_ANSWER @ u32_be (length (rev ?d))"
  let ?s1 = "(inp @ ?req, got)"
  let ?s2 = "(inp @ ?req, got + 6)"
  let ?s3 = "(inp @ ?req, got + 6 + length (rev ?d))"
  have enc: "encode_ascii b = Inr ?d"
    using ascii by (rule ascii_bytes)
  have dlen: "length ?d < 4294967296" "length (rev ?d) < 4294967296"
    using len by simp_all
  have mk: "client_create_packet REVERSE_REQUEST (PBytes ?d) = Inr (Some ?req)"
    using client_create_request [OF dlen(1)] by (simp add: request_packet_def)
  have snd: "sendall server_peer (inp, got) ?req = Inr ?s1"
    by (rule server_peer_sendall)
  have cat: "concat (outs @ [answer_packet (rev ?d)]) = concat outs @ (?h @ rev ?d)"
    by (simp add: answer_packet_def)
  have ne: "?h @ rev ?d \<noteq> []"
    by (simp add: u16_be_def)
  have "recv server_peer ?s1 6 =
        Inr (take 6 (?h @ rev ?d), (inp @ ?req, got + length (take 6 (?h @ rev ?d))))"
    by (rule server_peer_recv [OF run cat got ne])
  then have hdr: "recv server_peer ?s1 6 = Inr (?h, ?s2)"
    by simp
  have h6: "\<not> length ?h < 6"
    by simp
  have un: "unpack_I (slice ?h 2 6) = Inr (length (rev ?d))"
    using slice_len [of "u16_be REVERSE_ANSWER" "u32_be (length (rev ?d))" "[]"] dlen(2)
    by (simp add: unpack_I_u32_be)
  have cat2: "concat (outs @ [answer_packet (rev ?d)]) = (concat outs @ ?h) @ rev ?d"
    by (simp add: answer_packet_def)
  have got2: "length (concat outs @ ?h) = got + 6"
    using got by simp
  have body: "recv_data server_peer (length (rev ?d)) [] ?s2 = Inr (rev ?d, ?s3)"
    by (rule recv_data_peer [OF run cat2 got2])
  have full: "\<not> length (rev ?d) < length (rev ?d)"
    by simp
  have "list_all (\<lambda>x. unat x < 128) (rev ?d)" "map unat (rev ?d) = rev b"
    using ascii_bytes(2,3) [OF ascii] by (simp_all add: rev_map [symmetric])
  then have parse: "client_parse_packet (?h @ rev ?d) = Inr (Some REVERSE_ANSWER, PStr (rev b))"
    using client_parse_answer [OF dlen(2)] by (simp add: decode_ascii_def)
  have fin: "got + length (answer_packet (rev ?d)) = got + 6 + length (rev ?d)"
    by (simp add: answer_packet_def)
  show ?thesis
    unfolding exchange_block_def fin
    by (simp only: enc mk snd hdr h6 un body full parse if_False sum.case prod.case
        option.case pyval.case simp_thms)
qed

lemma set_next_result:
  "(xs @ replicate (Suc m) None)[length xs := v] = (xs @ [v]) @ replicate m None"
  by (simp add: list_update_append)

lemma ascii_blocks_bytes:
  assumes "list_all (\<lambda>b. list_all (\<lambda>c. c < 128) b \<and> length b < 4294967296) bs"
  shows "list_all (\<lambda>d. list_all (\<lambda>x. unat x < 128) d \<and> length d < 4294967296)
           (map (\<lambda>b. map of_nat b :: bytes) bs)"
  using assms by (induction bs) (simp_all add: ascii_bytes(2))

lemma exchange_blocks_peer:
  assumes "list_all (\<lambda>b. list_all (\<lambda>c. c < 128) b \<and> length b < 4294967296) (done @ todo)"
    and "length done + length todo = n" and "n < 4294967296"
  shows "exchange_blocks server_peer todo (length done)
           (map (\<lambda>b. Some (rev b)) done @ replicate (length todo) None) out
           (init_packet n @ concat (map (\<lambda>b. request_packet (map of_nat b)) done),
            length (concat (agree_packet # map (\<lambda>b. answer_packet (rev (map of_nat b))) done)))
         = (out @ map (\<lambda>b. request_packet (map of_nat b)) todo,
            map (\<lambda>b. Some (rev b)) (done @ todo))"
  using assms(1,2)
proof (induction todo arbitrary: "done" out)
  case Nil
  then show ?case by simp
next
  case (Cons b rest)
  let ?req = "\<lambda>b. request_packet (map of_nat b)"
  let ?ans = "\<lambda>b. answer_packet (rev (map of_nat b))"
  let ?inp = "init_packet n @ concat (map ?req done)"
  let ?outs = "agree_packet # map ?ans done"
  from Cons.prems(1) have b: "list_all (\<lambda>c. c < 128) b" "length b < 4294967296"
    by simp_all
  have ds: "list_all (\<lambda>d. list_all (\<lambda>x. unat x < 128) d \<and> length d < 4294967296)
              (map (\<lambda>b. map of_nat b :: bytes) (done @ [b]))"
    using Cons.prems(1) by (intro ascii_blocks_bytes) simp
  have k: "length (map (\<lambda>b. map of_nat b :: bytes) (done @ [b])) \<le> n"
    using Cons.prems(2) by simp
  have run: "handle_client_try stream_socket (?inp @ ?req b) =
        (?outs @ [?ans b], length (done @ [b]),
         if length (done @ [b]) < n then HeaderIncomplete else Completed)"
    using handle_client_try_stream [OF assms(3) k ds]
    by (simp add: comp_def rev_map)
  have step: "exchange_block server_peer (?inp, length (concat ?outs)) b =
        ([?req b], Some (rev b, (?inp @ ?req b, length (concat ?outs) + length (?ans b))))"
    using b run by (rule exchange_block_peer) simp
  have prems: "list_all (\<lambda>b. list_all (\<lambda>c. c < 128) b \<and> length b < 4294967296)
                 ((done @ [b]) @ rest)"
    "length (done @ [b]) + length rest = n"
    using Cons.prems by simp_all
  have ih: "exchange_blocks server_peer rest (length (done @ [b]))
          (map (\<lambda>b. Some (rev b)) (done @ [b]) @ replicate (length rest) None) (out @ [?req b])
          (init_packet n @ concat (map ?req (done @ [b])),
           length (concat (agree_packet # map ?ans (done @ [b]))))
        = ((out @ [?req b]) @ map ?req rest, map (\<lambda>b. Some (rev b)) ((done @ [b]) @ rest))"
    using prems by (rule Cons.IH)
  have upd: "(map (\<lambda>b. Some (rev b)) done @ replicate (length (b # rest)) None)
               [length done := Some (rev b)]
             = map (\<lambda>b. Some (rev b)) (done @ [b]) @ replicate (length rest) None"
    using set_next_result [of "map (\<lambda>b. Some (rev b)) done" "length rest" "Some (rev b)"]
    by simp
  have st: "(?inp @ ?req b, length (concat ?outs) + length (?ans b)) =
            (init_packet n @ concat (map ?req (done @ [b])),
             length (concat (agree_packet # map ?ans (done @ [b]))))"
    by simp
  show ?case
    unfolding exchange_blocks.simps step prod.case option.case upd st
    using ih by simp
qed

lemma handshake_peer:
  assumes "n < 4294967296"
  shows "handshake server_peer ([], 0) n = ([init_packet n], Inr (init_packet n, 2))"
proof -
  have run: "handle_client_try stream_socket (init_packet n) =
        ([agree_packet], 0, if 0 < n then HeaderIncomplete else Completed)"
    using handle_client_try_stream [OF assms, of "[]"] by simp
  have two: "length agree_packet = 2" "agree_packet \<noteq> []"
    by (simp_all add: agree_packet_def u16_be_def)
  have "recv server_peer (init_packet n, 0) 2 =
        Inr (take 2 agree_packet, (init_packet n, 0 + length (take 2 agree_packet)))"
    by (rule server_peer_recv [OF run, of "[]"]) (simp_all add: two)
  then have r: "recv server_peer (init_packet n, 0) 2 = Inr (agree_packet, (init_packet n, 2))"
    by (simp add: two)
  have c: "connect server_peer ([], 0) = Inr ([], 0)"
    by (rule server_peer_connect)
  have sd: "sendall server_peer ([], 0) (init_packet n) = Inr (init_packet n, 0)"
    using server_peer_sendall [of "[]" 0 "init_packet n"] by simp
  show ?thesis
    using assms c sd r by (rule handshake_agreed) (simp_all add: two)
qed

lemma client_session_peer:
  assumes "list_all (\<lambda>b. list_all (\<lambda>c. c < 128) b \<and> length b < 4294967296) blocks"
    and "length blocks < 4294967296"
  shows "client_session server_peer ([], 0) blocks =
           \<lparr>transmitted = init_packet (length blocks) #
                map (\<lambda>b. request_packet (map of_nat b)) blocks,
            reversed_blocks = map (\<lambda>b. Some (rev b)) blocks,
            output_file = Some (concat (map rev blocks)),
            ended = OutputWritten\<rparr>"
proof -
  let ?n = "length blocks"
  have two: "length agree_packet = 2"
    by (simp add: agree_packet_def)
  have h: "handshake server_peer ([], 0) ?n = ([init_packet ?n], Inr (init_packet ?n, 2))"
    using assms(2) by (rule handshake_peer)
  have "exchange_blocks server_peer blocks (length ([] :: pystr list))
          (map (\<lambda>b. Some (rev b)) [] @ replicate ?n None) [init_packet ?n]
          (init_packet ?n @ concat (map (\<lambda>b. request_packet (map of_nat b)) []),
           length (concat (agree_packet # map (\<lambda>b. answer_packet (rev (map of_nat b))) [])))
        = ([init_packet ?n] @ map (\<lambda>b. request_packet (map of_nat b)) blocks,
           map (\<lambda>b. Some (rev b)) ([] @ blocks))"
    by (rule exchange_blocks_peer [where n = ?n]) (simp_all add: assms)
  then have e: "exchange_blocks server_peer blocks 0 (replicate ?n None) [init_packet ?n]
          (init_packet ?n, 2)
        = (init_packet ?n # map (\<lambda>b. request_packet (map of_nat b)) blocks,
           map (\<lambda>b. Some (rev b)) blocks)"
    by (simp add: two)
  have all: "list_all (\<lambda>block. block \<noteq> None) (map (\<lambda>b. Some (rev b)) blocks)"
    by (simp add: list_all_iff)
  have cat: "concat (map the (map (\<lambda>b. Some (rev b)) blocks)) = concat (map rev blocks)"
    by (simp add: comp_def)
  show ?thesis
    unfolding client_session_exchanged [OF h e] using all cat by simp
qed


section \<open>A run of the client against the worker\<close>




section \<open>The empty text\<close>

lemma split_loop_empty:
  "split_loop [] lmin lmax rnd k 0 blocks = Some (Inr blocks)"
  by (subst split_loop.simps) simp

text \<open>
  Claim C9. The empty text gives no block. Connected to the worker of this repository,
  the client sends the initialization packet for zero blocks and nothing else; the worker
  answers with the agreement, processes no block and completes; the client stores no
  result and writes the empty output file. The same holds with any peer from which the
  agreement arrives.
\<close>

theorem empty_text_run:
  assumes "1024 \<le> server_port a" and "server_port a \<le> 65535"
    and "0 < Lmin a" and "Lmin a \<le> Lmax a"
  shows "split_loop ([] :: pystr) (Lmin a) (Lmax a) rnd 0 0 [] = Some (Inr []) \<and>
         main a (Some []) rnd server_peer ([], 0) =
           Some \<lparr>transmitted = [init_packet 0], reversed_blocks = [],
                  output_file = Some [], ended = OutputWritten\<rparr> \<and>
         handle_client_try stream_socket (init_packet 0) = ([agree_packet], 0, Completed) \<and>
         (handshake sock s 0 = (out, Inr s3) \<longrightarrow>
            main a (Some []) rnd sock s =
              Some \<lparr>transmitted = out, reversed_blocks = [],
                     output_file = Some [], ended = OutputWritten\<rparr>)"
proof -
  have sl: "split_loop ([] :: pystr) (Lmin a) (Lmax a) rnd 0 0 [] = Some (Inr [])"
    by (rule split_loop_empty)
  have m: "main a (Some []) rnd sk st = Some (client_session sk st [])" for sk :: "'x socket" and st
    using assms sl by (simp add: main_def)
  have peer: "client_session server_peer ([], 0) [] =
        \<lparr>transmitted = [init_packet 0], reversed_blocks = [],
         output_file = Some [], ended = OutputWritten\<rparr>"
    using client_session_peer [of "[]"] by simp
  have srv: "handle_client_try stream_socket (init_packet 0) = ([agree_packet], 0, Completed)"
    using handle_client_try_stream [of 0 "[]"] by simp
  have any: "client_session sock s [] =
        \<lparr>transmitted = out, reversed_blocks = [], output_file = Some [], ended = OutputWritten\<rparr>"
    if "handshake sock s 0 = (out, Inr s3)"
    using that by (simp add: client_session_def)
  show ?thesis
    using sl m [of server_peer "([], 0)"] m [of sock s] peer srv any by simp
qed

theorem empty_text_run_witness:
  "main \<lparr>server_port = 5000, Lmin = 5, Lmax = 5\<rparr> (Some []) id server_peer ([], 0) =
     Some \<lparr>transmitted = [init_packet 0], reversed_blocks = [],
           output_file = Some [], ended = OutputWritten\<rparr>"
  using empty_text_run [of "\<lparr>server_port = 5000, Lmin = 5, Lmax = 5\<rparr>" id server_peer "([], 0)"]
  by simp

section \<open>The sizes of the blocks\<close>

lemma randint_covers:
  assumes "a \<le> v" and "v \<le> b"
  shows "randint a b (nat (v - a)) = Inr v"
proof -
  have "nat (v - a) < nat (b - a + 1)"
    using assms by simp
  then have "nat (v - a) mod nat (b - a + 1) = nat (v - a)"
    by simp
  with assms show ?thesis
    by (simp add: randint_def)
qed

lemma split_loop_sizes:
  assumes "0 < lmin" "lmin \<le> lmax" "s \<le> length content"
    and "split_loop content lmin lmax rnd k (int s) acc = Some (Inr (acc @ bs))"
  shows "\<forall>j < length bs. \<exists>v. randint lmin lmax (rnd (k + j)) = Inr v \<and>
           int (length (bs ! j)) =
             min v (int (length content) - int s - int (length (concat (take j bs))))"
  using assms(3,4)
proof (induction "length content - s" arbitrary: s k acc bs rule: less_induct)
  case less
  show ?case
  proof (cases "s < length content")
    case False
    with less.prems(1) have "s = length content" by simp
    then have "split_loop content lmin lmax rnd k (int s) acc = Some (Inr acc)"
      by (subst split_loop.simps) simp
    with less.prems(2) have "bs = []" by simp
    then show ?thesis by simp
  next
    case True
    obtain v where v: "randint lmin lmax (rnd k) = Inr v" "lmin \<le> v" "v \<le> lmax"
      using randint_range [OF assms(2)] by blast
    define n where "n = nat v"
    have n: "v = int n" "0 < n"
      using v(2) assms(1) by (simp_all add: n_def)
    define e where "e = min (s + n) (length content)"
    have ev: "min (int s + v) (int (length content)) = int e"
      unfolding n(1) e_def by simp
    have se: "s < e" "e \<le> length content"
      using True n(2) by (simp_all add: e_def)
    define block where "block = take (e - s) (drop s content)"
    have blk: "py_slice content (int s) (int e) = block"
      using se by (simp add: py_slice_nat block_def)
    have step: "split_loop content lmin lmax rnd k (int s) acc =
                split_loop content lmin lmax rnd (Suc k) (int e) (acc @ [block])"
      using True by (subst split_loop.simps) (simp add: v(1) ev blk)
    obtain bs' where bs': "split_loop content lmin lmax rnd (Suc k) (int e) (acc @ [block])
        = Some (Inr ((acc @ [block]) @ bs'))"
      using split_loop_from [OF assms(1,2) se(2), of rnd "Suc k" "acc @ [block]"] by blast
    with step less.prems(2) have bs: "bs = block # bs'"
      by simp
    have "length content - e < length content - s"
      using se by simp
    from less.hyps [OF this se(2) bs']
    have ih: "\<forall>j < length bs'. \<exists>w. randint lmin lmax (rnd (Suc k + j)) = Inr w \<and>
        int (length (bs' ! j)) =
          min w (int (length content) - int e - int (length (concat (take j bs'))))" .
    have "length block = min n (length content - s)"
      using less.prems(1) by (simp add: block_def e_def)
    then have len: "int (length block) = min v (int (length content) - int s)"
      using less.prems(1) n(1) by linarith
    have len': "int (length block) = int e - int s"
      using se by (simp add: block_def)
    show ?thesis
    proof (intro allI impI)
      fix j assume j: "j < length bs"
      show "\<exists>w. randint lmin lmax (rnd (k + j)) = Inr w \<and>
          int (length (bs ! j)) =
            min w (int (length content) - int s - int (length (concat (take j bs))))"
      proof (cases j)
        case 0
        with v(1) len bs show ?thesis by simp
      next
        case (Suc i)
        with j bs have i: "i < length bs'" by simp
        from ih i obtain w where w: "randint lmin lmax (rnd (Suc k + i)) = Inr w"
          "int (length (bs' ! i)) =
             min w (int (length content) - int e - int (length (concat (take i bs'))))"
          by blast
        have "int (length content) - int s - int (length (concat (take j bs))) =
              int (length content) - int e - int (length (concat (take i bs')))"
          using Suc bs len' by simp
        with w Suc bs show ?thesis by simp
      qed
    qed
  qed
qed

text \<open>
  Claim C2. For block sizes with \<open>0 < Lmin \<le> Lmax\<close> the splitting loop of the client
  ends, whatever the random draws, and its blocks, in order, concatenate to the text. No
  block is empty, none is longer than \<open>Lmax\<close>, every block but the last has at least
  \<open>Lmin\<close> characters, and the last block is what is left of the text after the others.
  The length of the \<open>k\<close>-th block is the value of the \<open>k\<close>-th call of \<open>randint\<close>, cut
  down to what is left of the text; and every size from \<open>Lmin\<close> to \<open>Lmax\<close>, both
  included, is the value of \<open>randint\<close> for some draw. How often each size is drawn is a
  matter of the generator and is not stated.
\<close>

theorem split_loop_blocks:
  assumes "0 < lmin" and "lmin \<le> lmax"
  shows "\<exists>blocks. split_loop content lmin lmax rnd 0 0 [] = Some (Inr blocks) \<and>
           concat blocks = content \<and>
           (\<forall>b \<in> set blocks. b \<noteq> [] \<and> int (length b) \<le> lmax) \<and>
           (\<forall>b \<in> set (butlast blocks). lmin \<le> int (length b) \<and> int (length b) \<le> lmax) \<and>
           (content \<noteq> [] \<longrightarrow> blocks \<noteq> [] \<and>
              last blocks = drop (length (concat (butlast blocks))) content) \<and>
           (\<forall>k < length blocks. \<exists>v. randint lmin lmax (rnd k) = Inr v \<and>
              int (length (blocks ! k)) =
                min v (int (length content) - int (length (concat (take k blocks))))) \<and>
           (\<forall>v. lmin \<le> v \<and> v \<le> lmax \<longrightarrow> randint lmin lmax (nat (v - lmin)) = Inr v)"
proof -
  from split_loop_bounds [OF assms, of content rnd] obtain blocks where
    b: "split_loop content lmin lmax rnd 0 0 [] = Some (Inr blocks)"
      "concat blocks = content"
      "\<forall>b \<in> set blocks. b \<noteq> [] \<and> int (length b) \<le> lmax"
      "\<forall>b \<in> set (butlast blocks). lmin \<le> int (length b) \<and> int (length b) \<le> lmax"
      "content \<noteq> [] \<longrightarrow> blocks \<noteq> [] \<and>
         last blocks = drop (length (concat (butlast blocks))) content"
    by blast
  have "split_loop content lmin lmax rnd 0 (int 0) [] = Some (Inr ([] @ blocks))"
    using b(1) by simp
  from split_loop_sizes [OF assms _ this]
  have sizes: "\<forall>k < length blocks. \<exists>v. randint lmin lmax (rnd k) = Inr v \<and>
      int (length (blocks ! k)) =
        min v (int (length content) - int (length (concat (take k blocks))))"
    by simp
  have "\<forall>v. lmin \<le> v \<and> v \<le> lmax \<longrightarrow> randint lmin lmax (nat (v - lmin)) = Inr v"
    by (simp add: randint_covers)
  with b sizes show ?thesis
    by blast
qed

lemma split_loop_hello_world_2_4:
  "split_loop (map of_char ''hello world'' :: pystr) 2 4 id 0 0 [] =
     Some (Inr [map of_char ''he'', map of_char ''llo'', map of_char '' wor'',
                map of_char ''ld''])"
  by (simp add: split_loop.simps randint_def py_slice_def clip_index_def slice_def)

theorem split_loop_blocks_witness:
  "(0::int) < 2 \<and> (2::int) \<le> 4 \<and>
   split_loop (map of_char ''hello world'' :: pystr) 2 4 id 0 0 [] =
     Some (Inr [map of_char ''he'', map of_char ''llo'', map of_char '' wor'',
                map of_char ''ld'']) \<and>
   randint 2 4 (id 0) = Inr 2 \<and> randint 2 4 (id 1) = Inr 3 \<and> randint 2 4 (id 2) = Inr 4 \<and>
   randint 2 4 (nat (3 - 2)) = Inr 3 \<and> randint 2 4 (nat (4 - 2)) = Inr 4"
proof -
  from split_loop_blocks [of 2 4 "map of_char ''hello world'' :: pystr" id]
  have cover: "\<forall>v. (2::int) \<le> v \<and> v \<le> 4 \<longrightarrow> randint 2 4 (nat (v - 2)) = Inr v"
    by auto
  from cover have "randint 2 4 (nat (3 - 2)) = Inr 3"
    by (rule allE [where x = 3]) simp
  moreover from cover have "randint 2 4 (nat (4 - 2)) = Inr 4"
    by (rule allE [where x = 4]) simp
  ultimately show ?thesis
    using split_loop_hello_world_2_4 by (simp add: randint_def)
qed

section \<open>The one value for no packet\<close>

lemma server_parse_unknown:
  assumes "unpack_H (slice q 0 2) = Inr t" and "t \<noteq> INITIALIZATION" and "t \<noteq> REVERSE_REQUEST"
  shows "server_parse_packet q = Inr (None, PNone)"
  using assms by (simp add: server_parse_packet_def)

lemma client_parse_unknown:
  assumes "unpack_H (slice q 0 2) = Inr t" and "t \<noteq> AGREE" and "t \<noteq> REVERSE_ANSWER"
  shows "client_parse_packet q = Inr (None, PNone)"
  using assms by (simp add: client_parse_packet_def)

lemma handle_client_try_none:
  assumes "recv sock s 6 = Inr (data, s1)" and "6 \<le> length data"
    and "server_parse_packet data = Inr (None, v)"
  shows "handle_client_try sock s = ([], 0, InitInvalid)"
proof -
  have "data \<noteq> []" "\<not> length data < 6"
    using assms(2) by auto
  then show ?thesis
    by (simp add: handle_client_try_def assms(1,3))
qed

text \<open>
  A request cut short and a packet of the unknown type 9 get the same answer from
  \<open>parse_packet\<close>, and the worker that reads the cut request where it expects the
  initialization leaves by the path of the invalid packet.
\<close>

theorem truncated_packet_counterexample:
  "client_create_packet REVERSE_REQUEST (PBytes [104, 105]) =
     Inr (Some [0, 3, 0, 0, 0, 2, 104, 105]) \<and>
   server_parse_packet [0, 3, 0, 0, 0, 2, 104] = Inr (None, PNone) \<and>
   server_parse_packet [0, 9, 0, 0, 0, 2, 104] = Inr (None, PNone) \<and>
   client_parse_packet [0, 3, 0, 0, 0, 2, 104] = Inr (None, PNone) \<and>
   client_parse_packet [0, 9, 0, 0, 0, 2, 104] = Inr (None, PNone) \<and>
   handle_client_try stream_socket [0, 3, 0, 0, 0, 2] = ([], 0, InitInvalid)"
proof -
  have c: "client_create_packet REVERSE_REQUEST (PBytes [104, 105]) =
     Inr (Some [0, 3, 0, 0, 0, 2, 104, 105])"
    by (simp add: client_create_packet_def pack_HI_def u16_be_def u32_be_def packet_types)
  have p: "server_parse_packet [0, 3, 0, 0, 0, 2, 104] = Inr (None, PNone)"
    "server_parse_packet [0, 9, 0, 0, 0, 2, 104] = Inr (None, PNone)"
    "server_parse_packet [0, 3, 0, 0, 0, 2] = Inr (None, PNone)"
    by (simp_all add: server_parse_packet_def slice_def packet_types)
  have q: "client_parse_packet [0, 3, 0, 0, 0, 2, 104] = Inr (None, PNone)"
    "client_parse_packet [0, 9, 0, 0, 0, 2, 104] = Inr (None, PNone)"
    by (simp_all add: client_parse_packet_def slice_def packet_types)
  have "recv stream_socket [0, 3, 0, 0, 0, 2] 6 = Inr ([0, 3, 0, 0, 0, 2], [])"
    by (simp add: stream_recv)
  then have h: "handle_client_try stream_socket [0, 3, 0, 0, 0, 2] = ([], 0, InitInvalid)"
    by (rule handle_client_try_none) (simp_all add: p(3))
  from c p(1,2) q h show ?thesis by simp
qed

text \<open>
  Claim C5, as the code has it. Take any packet that \<open>create_packet\<close> builds, on either
  side, and cut it short at any length: \<open>parse_packet\<close>, on either side, raises nothing
  and returns \<open>(None, None)\<close>. That is the only value the codec has for no packet: it is
  also what \<open>parse_packet\<close> returns for a type it does not know, and a worker that gets
  it for its first six bytes leaves by the path of the invalid initialization. The code
  has no result that tells a packet still arriving from an invalid one.
\<close>

theorem truncated_packet_is_no_packet:
  assumes "client_create_packet ty v = Inr (Some p) \<or> server_create_packet ty v = Inr (Some p)"
    and "k < length p"
  shows "server_parse_packet (take k p) = Inr (None, PNone) \<and>
         client_parse_packet (take k p) = Inr (None, PNone) \<and>
         (unpack_H (slice q 0 2) = Inr t \<and> t \<noteq> INITIALIZATION \<and> t \<noteq> REVERSE_REQUEST \<longrightarrow>
            server_parse_packet q = Inr (None, PNone)) \<and>
         (unpack_H (slice q 0 2) = Inr t \<and> t \<noteq> AGREE \<and> t \<noteq> REVERSE_ANSWER \<longrightarrow>
            client_parse_packet q = Inr (None, PNone)) \<and>
         (recv sock s 6 = Inr (data, s1) \<and> 6 \<le> length data \<and>
          server_parse_packet data = Inr (None, PNone) \<longrightarrow>
            handle_client_try sock s = ([], 0, InitInvalid))"
  using truncated_packet_none [OF assms] server_parse_unknown [of q t]
    client_parse_unknown [of q t] handle_client_try_none [of sock s data s1 PNone]
  by blast

theorem truncated_packet_is_no_packet_witness:
  "client_create_packet REVERSE_REQUEST (PBytes [104, 105]) =
     Inr (Some [0, 3, 0, 0, 0, 2, 104, 105]) \<and>
   server_parse_packet [0, 3, 0, 0, 0, 2, 104] = Inr (None, PNone) \<and>
   client_parse_packet [0, 3, 0, 0, 0, 2, 104] = Inr (None, PNone) \<and>
   server_parse_packet [0, 9, 1] = Inr (None, PNone) \<and>
   client_parse_packet [0, 9, 1] = Inr (None, PNone)"
proof -
  have c: "client_create_packet REVERSE_REQUEST (PBytes [104, 105])
             = Inr (Some [0, 3, 0, 0, 0, 2, 104, 105])"
    by (simp add: client_create_packet_def pack_HI_def u16_be_def u32_be_def packet_types)
  have u: "unpack_H (slice [0, 9, 1] 0 2) = Inr 9"
    by (simp add: slice_def)
  show ?thesis
    using truncated_packet_is_no_packet
      [of REVERSE_REQUEST "PBytes [104, 105]" "[0, 3, 0, 0, 0, 2, 104, 105]" 7 "[0, 9, 1]" 9
        stream_socket "[]" "[]" "[]"] c u
    by (simp add: packet_types)
qed

section \<open>The thread registry and the dispatcher\<close>

lemma accept_and_handle_listed_first:
  assumes "conn \<notin> set (client_connections g)" and "thread \<notin> set (client_threads g)"
  shows "accept_and_handle False sock s conn thread g = g"
  using assms
  by (simp add: accept_and_handle_def handle_client_globals register_thread_def remove1_append)

lemma accept_and_handle_worker_first:
  "thread \<in> set (client_threads (accept_and_handle True sock s conn thread g))"
  by (simp add: accept_and_handle_def register_thread_def)

text \<open>
  Claim C10, a case in which the code does not keep it. A client connects and sends
  nothing before the connection ends. The worker leaves by the path of the incomplete
  initialization and closes its socket. If it does so before the dispatcher has run
  line 196, it finds its thread not listed and removes nothing; the dispatcher then
  lists the thread, and the registry names a thread that has ended. When line 196 runs
  first, the registry is left as it was.
\<close>

theorem finished_worker_stays_listed:
  "exit_by (handle_client stream_socket [] (1::nat) (7::nat)
      \<lparr>client_threads = [], client_connections = []\<rparr>) = InitIncomplete \<and>
   closed (handle_client stream_socket [] (1::nat) (7::nat)
      \<lparr>client_threads = [], client_connections = []\<rparr>) \<and>
   accept_and_handle True stream_socket [] (1::nat) (7::nat)
      \<lparr>client_threads = [], client_connections = []\<rparr> =
     \<lparr>client_threads = [7], client_connections = []\<rparr> \<and>
   accept_and_handle False stream_socket [] (1::nat) (7::nat)
      \<lparr>client_threads = [], client_connections = []\<rparr> =
     \<lparr>client_threads = [], client_connections = []\<rparr>"
proof -
  have t: "handle_client_try stream_socket [] = ([], 0, InitIncomplete)"
    by (simp add: handle_client_try_def stream_recv)
  show ?thesis
    by (simp add: handle_client_result t accept_and_handle_def handle_client_globals
        register_thread_def)
qed

section \<open>Requests that arrive in pieces\<close>









section \<open>Exchanges that fail\<close>

lemma exchanges_Cons:
  assumes "exchanges sock s (block # rest) = Some (ts, s')"
  shows "\<exists>req t s1 ts'. exchange_block sock s block = (req, Some (t, s1)) \<and>
           exchanges sock s1 rest = Some (ts', s') \<and> ts = t # ts'"
proof -
  obtain req r where eb: "exchange_block sock s block = (req, r)"
    by (cases "exchange_block sock s block")
  from assms eb obtain t s1 where r: "r = Some (t, s1)"
    by (cases r) auto
  from assms eb r obtain ts' where "exchanges sock s1 rest = Some (ts', s')" "ts = t # ts'"
    by (cases "exchanges sock s1 rest") auto
  with eb r show ?thesis by blast
qed

lemma exchanges_length:
  "exchanges sock s blocks = Some (ts, s') \<Longrightarrow> length ts = length blocks"
proof (induction blocks arbitrary: s ts)
  case Nil
  then show ?case by simp
next
  case (Cons block rest)
  from exchanges_Cons [OF Cons.prems] obtain req t s1 ts' where
    "exchanges sock s1 rest = Some (ts', s')" "ts = t # ts'"
    by blast
  with Cons.IH [of s1 ts'] show ?case by simp
qed













end
